theory Spec2Isabelle
  imports Main "HOL-Library.AList" "HOL-Library.Multiset"
begin

section \<open>Offsets\<close>

text \<open>
  \<^verbatim>\<open>type Offset struct { X, Y int }\<close>.  Go's \<^verbatim>\<open>int\<close> has 64 bits on the platforms the
  program is built for.  A coordinate is an integer of HOL, and the operations of the
  source that can overflow reduce their result with \<open>wrap\<close>, as two's complement
  arithmetic does: \<^verbatim>\<open>Sub\<close> wraps a difference, and \<^verbatim>\<open>Abs\<close> returns the least integer
  unchanged.  The table builder needs no \<open>wrap\<close>: it adds one only to values below the
  radius and negates only values between minus the radius and the radius.
\<close>

datatype Offset = Offset (X: int) (Y: int)

definition wrap :: "int \<Rightarrow> int" where
  "wrap x = (x + 9223372036854775808) mod 18446744073709551616 - 9223372036854775808"

definition Sub :: "Offset \<Rightarrow> Offset \<Rightarrow> Offset" where
  "Sub o' a = Offset (wrap (X o' - X a)) (wrap (Y o' - Y a))"

text \<open>\<^verbatim>\<open>Max\<close> of the source; primed because HOL has a constant of that name.\<close>

definition Max' :: "int \<Rightarrow> int \<Rightarrow> int" where
  "Max' x y = (if y > x then y else x)"

definition Abs :: "int \<Rightarrow> int" where
  "Abs x = (if x < 0 then wrap (- x) else x)"

definition Chebyshev :: "Offset \<Rightarrow> int" where
  "Chebyshev o' = Max' (Abs (X o')) (Abs (Y o'))"

section \<open>The directional table\<close>

text \<open>
  \<^verbatim>\<open>map[Offset]map[Offset]struct{}\<close>: a map from a source offset to a set of destination
  offsets.  It is kept as an association list with distinct keys whose values are
  duplicate-free lists, because the code iterates over it.  Go leaves the order of a
  \<^verbatim>\<open>range\<close> over a map open; the model iterates in insertion order.
\<close>

type_synonym table = "(Offset \<times> Offset list) list"

text \<open>\<^verbatim>\<open>table[off]\<close>: a missing key yields the nil map, which ranges over nothing.\<close>

definition neighbors_of :: "table \<Rightarrow> Offset \<Rightarrow> Offset list" where
  "neighbors_of t off = (case map_of t off of None \<Rightarrow> [] | Some ns \<Rightarrow> ns)"

text \<open>\<^verbatim>\<open>neighbors[dst] = struct{}{}\<close> on a set: nothing changes when dst is a member.\<close>

definition set_insert :: "Offset \<Rightarrow> Offset list \<Rightarrow> Offset list" where
  "set_insert dst ns = (if dst \<in> set ns then ns else ns @ [dst])"

definition addEntry :: "table \<Rightarrow> Offset \<Rightarrow> Offset \<Rightarrow> table" where
  "addEntry t src dst = AList.update src (set_insert dst (neighbors_of t src)) t"

text \<open>
  The inner loop of \<^verbatim>\<open>computeTable\<close>, \<^verbatim>\<open>for y := 0; y <= x; y++\<close>, with its running
  counter \<^verbatim>\<open>nextY\<close>.
\<close>

function row_loop :: "int \<Rightarrow> int \<Rightarrow> int \<Rightarrow> int \<Rightarrow> table \<Rightarrow> table" where
  "row_loop x currBreak y nextY t =
     (if y \<le> x then
        (if y = currBreak then
           row_loop x currBreak (y + 1) (nextY + 2)
             (addEntry (addEntry t (Offset x y) (Offset (x + 1) nextY))
                (Offset x y) (Offset (x + 1) (nextY + 1)))
         else
           row_loop x currBreak (y + 1) (nextY + 1)
             (addEntry t (Offset x y) (Offset (x + 1) nextY)))
      else t)"
  by pat_completeness auto
termination
  by (relation "measure (\<lambda>(x, currBreak, y, nextY, t). nat (x + 1 - y))") auto

text \<open>The outer loop, \<^verbatim>\<open>for x := 1; x < radius; x++\<close>, with the break bookkeeping.\<close>

function ring_loop :: "int \<Rightarrow> int \<Rightarrow> int \<Rightarrow> int \<Rightarrow> table \<Rightarrow> table" where
  "ring_loop radius x currBreak breakCount t =
     (if x < radius then
        (let t' = row_loop x currBreak 0 0 t;
             breakCount' = breakCount - 1
         in if breakCount' < 0
            then ring_loop radius (x + 1) (currBreak + 1) (currBreak + 1) t'
            else ring_loop radius (x + 1) currBreak breakCount' t')
      else t)"
  by pat_completeness auto
termination
  by (relation "measure (\<lambda>(radius, x, currBreak, breakCount, t). nat (radius - x))") auto

declare row_loop.simps [simp del] ring_loop.simps [simp del]

text \<open>
  \<^verbatim>\<open>completeTable\<close>.  Both loops range over the table while adding to it.  Go may or
  may not produce an entry created during the iteration; the model ranges over the
  keys and the destination sets as they are when the respective loop starts.
\<close>

definition swap_entries :: "Offset \<Rightarrow> Offset list \<Rightarrow> table \<Rightarrow> table" where
  "swap_entries key ps t =
     fold (\<lambda>pos t. addEntry t (Offset (Y key) (X key)) (Offset (Y pos) (X pos))) ps t"

definition negate_entries :: "Offset \<Rightarrow> Offset list \<Rightarrow> table \<Rightarrow> table" where
  "negate_entries key ps t =
     fold (\<lambda>pos t.
        addEntry
          (addEntry
             (addEntry t (Offset (- X key) (Y key)) (Offset (- X pos) (Y pos)))
             (Offset (X key) (- Y key)) (Offset (X pos) (- Y pos)))
          (Offset (- X key) (- Y key)) (Offset (- X pos) (- Y pos))) ps t"

definition completeTable :: "table \<Rightarrow> table" where
  "completeTable t =
     (let t1 = fold (\<lambda>key t. swap_entries key (neighbors_of t key) t) (map fst t) t
      in fold (\<lambda>key t. negate_entries key (neighbors_of t key) t) (map fst t1) t1)"

definition computeTable :: "int \<Rightarrow> table" where
  "computeTable radius =
     completeTable
       (ring_loop radius 1 0 0
          (addEntry (addEntry [] (Offset 0 0) (Offset 1 0)) (Offset 0 0) (Offset 1 1)))"


section \<open>Tiles\<close>

text \<open>
  Modelled from the spec: the declaration of \<^verbatim>\<open>Tile\<close> with the fields the field-of-view
  code reads is not among the sources (the \<^verbatim>\<open>Tile\<close> of model.go has neither
  \<^verbatim>\<open>Lite\<close> nor \<^verbatim>\<open>Offset\<close>).  Following the spec's data model a tile carries a
  transparency flag, its position (read by \<^verbatim>\<open>LoS\<close> only) and the adjacency map
  \<^verbatim>\<open>map[Offset]*Tile\<close>.

  A \<^verbatim>\<open>*Tile\<close> is an optional address, \<open>None\<close> being nil; the heap maps every address
  to the tile stored there.  Looking up a key that the adjacency map lacks yields nil,
  exactly as a key stored with nil does, so the map is a function into pointers.
\<close>

type_synonym ptr = "nat option"

record Tile =
  Lite :: bool
  Offset' :: Offset
  Adjacent :: "Offset \<Rightarrow> ptr"

type_synonym heap = "nat \<Rightarrow> Tile"

text \<open>The only run-time failure of this code: a field of a nil \<^verbatim>\<open>*Tile\<close> is read.\<close>

datatype error = NilDereference

section \<open>The caches\<close>

type_synonym rtable = "Offset \<rightharpoonup> Offset"

record caches =
  tableCache :: "int \<rightharpoonup> table"
  reverseTableCache :: "int \<rightharpoonup> rtable"

text \<open>
  The lookup that opens both \<^verbatim>\<open>FoV\<close> and \<^verbatim>\<open>computeReverseTable\<close>:
  \<^verbatim>\<open>table, cached := tableCache[radius]; if !cached { ... }\<close>.
\<close>

definition cachedTable :: "caches \<Rightarrow> int \<Rightarrow> table \<times> caches" where
  "cachedTable c radius =
     (case tableCache c radius of
        Some t \<Rightarrow> (t, c)
      | None \<Rightarrow>
          (let t = computeTable radius
           in (t, c\<lparr>tableCache := (tableCache c)(radius \<mapsto> t)\<rparr>)))"

section \<open>Field of view\<close>

text \<open>
  \<^verbatim>\<open>map[Offset]*Tile\<close>: which offsets are keys matters (\<^verbatim>\<open>wallfix\<close> tests it), and a
  key may hold nil.
\<close>

type_synonym fov = "Offset \<rightharpoonup> ptr"

text \<open>\<^verbatim>\<open>fov[off]\<close> read as a value: nil for a missing key.\<close>

definition tile_at :: "fov \<Rightarrow> Offset \<Rightarrow> ptr" where
  "tile_at fov off = (case fov off of None \<Rightarrow> None | Some p \<Rightarrow> p)"

text \<open>
  The body of \<^verbatim>\<open>for adj := range table[off]\<close>.  \<^verbatim>\<open>tile.Adjacent\<close> fails on a nil tile
  and \<^verbatim>\<open>neighbor.Lite\<close> on a nil neighbour.  The stack is a list whose head is the
  top of the slice.
\<close>

fun visit ::
  "heap \<Rightarrow> ptr \<Rightarrow> Offset \<Rightarrow> Offset list \<Rightarrow> fov \<Rightarrow> Offset list \<Rightarrow> error + fov \<times> Offset list" where
  "visit h tile off [] fov stack = Inr (fov, stack)"
| "visit h tile off (adj # adjs) fov stack =
     (case tile of
        None \<Rightarrow> Inl NilDereference
      | Some t \<Rightarrow>
          (let neighbor = Adjacent (h t) (Sub adj off) in
           case neighbor of
             None \<Rightarrow> Inl NilDereference
           | Some n \<Rightarrow>
               visit h tile off adjs (fov(adj \<mapsto> neighbor))
                 (if Lite (h n) then adj # stack else stack)))"

text \<open>\<^verbatim>\<open>for len(stack) > 0\<close>: nothing in the loop itself bounds the number of rounds.\<close>

partial_function (option) flood ::
  "table \<Rightarrow> heap \<Rightarrow> fov \<Rightarrow> Offset list \<Rightarrow> (error + fov) option" where
  "flood table h fov stack =
     (if stack \<noteq> [] then
        (let off = hd stack in
         case visit h (tile_at fov off) off (neighbors_of table off) fov (tl stack) of
           Inl e \<Rightarrow> Some (Inl e)
         | Inr (fov', stack') \<Rightarrow> flood table h fov' stack')
      else Some (Inr fov))"

text \<open>The four blocks of \<^verbatim>\<open>wallfix\<close>, in the order of the source.\<close>

function wallfix_pos_x :: "heap \<Rightarrow> int \<Rightarrow> int \<Rightarrow> fov \<Rightarrow> error + fov" where
  "wallfix_pos_x h radius dx fov =
     (if dx \<le> radius then
        (if fov (Offset dx 0) \<noteq> None then
           (case tile_at fov (Offset (dx - 1) 0) of
              None \<Rightarrow> Inl NilDereference
            | Some pos \<Rightarrow>
                wallfix_pos_x h radius (dx + 1)
                  (fov(Offset dx 1 \<mapsto> Adjacent (h pos) (Offset 1 1),
                       Offset dx (- 1) \<mapsto> Adjacent (h pos) (Offset 1 (- 1)))))
         else Inr fov)
      else Inr fov)"
  by pat_completeness auto
termination
  by (relation "measure (\<lambda>(h, radius, dx, fov). nat (radius + 1 - dx))") auto

function wallfix_neg_x :: "heap \<Rightarrow> int \<Rightarrow> int \<Rightarrow> fov \<Rightarrow> error + fov" where
  "wallfix_neg_x h radius dx fov =
     (if dx \<ge> - radius then
        (if fov (Offset dx 0) \<noteq> None then
           (case tile_at fov (Offset (dx + 1) 0) of
              None \<Rightarrow> Inl NilDereference
            | Some pos \<Rightarrow>
                wallfix_neg_x h radius (dx - 1)
                  (fov(Offset dx 1 \<mapsto> Adjacent (h pos) (Offset (- 1) 1),
                       Offset dx (- 1) \<mapsto> Adjacent (h pos) (Offset (- 1) (- 1)))))
         else Inr fov)
      else Inr fov)"
  by pat_completeness auto
termination
  by (relation "measure (\<lambda>(h, radius, dx, fov). nat (dx + radius + 1))") auto

function wallfix_pos_y :: "heap \<Rightarrow> int \<Rightarrow> int \<Rightarrow> fov \<Rightarrow> error + fov" where
  "wallfix_pos_y h radius dy fov =
     (if dy \<le> radius then
        (if fov (Offset 0 dy) \<noteq> None then
           (case tile_at fov (Offset 0 (dy - 1)) of
              None \<Rightarrow> Inl NilDereference
            | Some pos \<Rightarrow>
                wallfix_pos_y h radius (dy + 1)
                  (fov(Offset 1 dy \<mapsto> Adjacent (h pos) (Offset 1 1),
                       Offset (- 1) dy \<mapsto> Adjacent (h pos) (Offset (- 1) 1))))
         else Inr fov)
      else Inr fov)"
  by pat_completeness auto
termination
  by (relation "measure (\<lambda>(h, radius, dy, fov). nat (radius + 1 - dy))") auto

function wallfix_neg_y :: "heap \<Rightarrow> int \<Rightarrow> int \<Rightarrow> fov \<Rightarrow> error + fov" where
  "wallfix_neg_y h radius dy fov =
     (if dy \<ge> - radius then
        (if fov (Offset 0 dy) \<noteq> None then
           (case tile_at fov (Offset 0 (dy + 1)) of
              None \<Rightarrow> Inl NilDereference
            | Some pos \<Rightarrow>
                wallfix_neg_y h radius (dy - 1)
                  (fov(Offset 1 dy \<mapsto> Adjacent (h pos) (Offset 1 (- 1)),
                       Offset (- 1) dy \<mapsto> Adjacent (h pos) (Offset (- 1) (- 1)))))
         else Inr fov)
      else Inr fov)"
  by pat_completeness auto
termination
  by (relation "measure (\<lambda>(h, radius, dy, fov). nat (dy + radius + 1))") auto

declare wallfix_pos_x.simps [simp del] wallfix_neg_x.simps [simp del]
  wallfix_pos_y.simps [simp del] wallfix_neg_y.simps [simp del]

definition wallfix :: "heap \<Rightarrow> fov \<Rightarrow> int \<Rightarrow> error + fov" where
  "wallfix h fov radius =
     (case wallfix_pos_x h radius 1 fov of Inl e \<Rightarrow> Inl e | Inr fov1 \<Rightarrow>
      case wallfix_neg_x h radius (- 1) fov1 of Inl e \<Rightarrow> Inl e | Inr fov2 \<Rightarrow>
      case wallfix_pos_y h radius 1 fov2 of Inl e \<Rightarrow> Inl e | Inr fov3 \<Rightarrow>
      wallfix_neg_y h radius (- 1) fov3)"

text \<open>
  \<^verbatim>\<open>FoV\<close>.  The result is \<open>None\<close> when the flood does not return, otherwise the
  returned map or the failure, together with the caches as the call leaves them.
\<close>

definition FoV :: "caches \<Rightarrow> heap \<Rightarrow> ptr \<Rightarrow> int \<Rightarrow> ((error + fov) \<times> caches) option" where
  "FoV c h origin radius =
     (case cachedTable c radius of (table, c') \<Rightarrow>
        (case flood table h [Offset 0 0 \<mapsto> origin] [Offset 0 0] of
           None \<Rightarrow> None
         | Some (Inl e) \<Rightarrow> Some (Inl e, c')
         | Some (Inr fov) \<Rightarrow> Some (wallfix h fov radius, c')))"

section \<open>The reverse table, Trace and LoS\<close>

text \<open>\<^verbatim>\<open>reverse[edge] = pos\<close> for every edge of the forward table; a later write wins.\<close>

definition reverse_of :: "table \<Rightarrow> rtable" where
  "reverse_of forward =
     fold (\<lambda>(pos, edges) reverse. fold (\<lambda>edge reverse. reverse(edge \<mapsto> pos)) edges reverse)
       forward Map.empty"

definition computeReverseTable :: "caches \<Rightarrow> int \<Rightarrow> rtable \<times> caches" where
  "computeReverseTable c radius =
     (case cachedTable c radius of (forward, c') \<Rightarrow> (reverse_of forward, c'))"

definition getReverseTable :: "caches \<Rightarrow> Offset \<Rightarrow> rtable \<times> caches" where
  "getReverseTable c o' =
     (let radius = Chebyshev o' in
      case reverseTableCache c radius of
        Some t \<Rightarrow> (t, c)
      | None \<Rightarrow>
          (case computeReverseTable c radius of (t, c') \<Rightarrow>
             (t, c'\<lparr>reverseTableCache := (reverseTableCache c')(radius \<mapsto> t)\<rparr>)))"

text \<open>\<^verbatim>\<open>table[goal]\<close> on the reverse table: the zero \<^verbatim>\<open>Offset\<close> for a missing key.\<close>

definition pred_of :: "rtable \<Rightarrow> Offset \<Rightarrow> Offset" where
  "pred_of t p = (case t p of None \<Rightarrow> Offset 0 0 | Some q \<Rightarrow> q)"

text \<open>\<^verbatim>\<open>for goal.X != 0 || goal.Y != 0\<close>, appending to the path.\<close>

partial_function (option) trace_loop :: "rtable \<Rightarrow> Offset \<Rightarrow> Offset list \<Rightarrow> Offset list option" where
  "trace_loop table goal path =
     (if X goal \<noteq> 0 \<or> Y goal \<noteq> 0
      then trace_loop table (pred_of table goal) (path @ [goal])
      else Some path)"

text \<open>
  \<^verbatim>\<open>Trace\<close>: the loop above, then the in-place reversal of the slice (\<^verbatim>\<open>rev\<close>).
\<close>

definition Trace :: "caches \<Rightarrow> Offset \<Rightarrow> (Offset list \<times> caches) option" where
  "Trace c goal =
     (case getReverseTable c goal of (table, c') \<Rightarrow>
        (case trace_loop table goal [] of
           None \<Rightarrow> None
         | Some path \<Rightarrow> Some (rev path, c')))"

text \<open>\<^verbatim>\<open>for goal != origin\<close> compares the two pointers.\<close>

partial_function (option) los_loop ::
  "rtable \<Rightarrow> heap \<Rightarrow> ptr \<Rightarrow> ptr \<Rightarrow> Offset \<Rightarrow> (error + bool) option" where
  "los_loop table h origin goal cur =
     (if goal \<noteq> origin then
        (case goal of
           None \<Rightarrow> Some (Inl NilDereference)
         | Some g \<Rightarrow>
             if \<not> Lite (h g) then Some (Inr False)
             else (let next = pred_of table cur
                   in los_loop table h origin (Adjacent (h g) (Sub next cur)) next))
      else Some (Inr True))"

definition LoS :: "caches \<Rightarrow> heap \<Rightarrow> ptr \<Rightarrow> ptr \<Rightarrow> ((error + bool) \<times> caches) option" where
  "LoS c h origin goal =
     (case goal of
        None \<Rightarrow> Some (Inl NilDereference, c)
      | Some g \<Rightarrow>
          (case origin of
             None \<Rightarrow> Some (Inl NilDereference, c)
           | Some og \<Rightarrow>
               (let cur = Sub (Offset' (h g)) (Offset' (h og)) in
                case getReverseTable c cur of (table, c') \<Rightarrow>
                  (case los_loop table h origin goal cur of
                     None \<Rightarrow> None
                   | Some r \<Rightarrow> Some (r, c')))))"

declare flood.simps [code] trace_loop.simps [code] los_loop.simps [code]

section \<open>Notions used to state the properties\<close>

text \<open>
  The arithmetic of offsets over the integers, without overflow: sum, difference and
  multiple of offsets, and the Chebyshev distance of an offset from the origin.  The
  program's \<^verbatim>\<open>Sub\<close> and \<^verbatim>\<open>Chebyshev\<close> agree with \<open>diff\<close> and \<open>distance\<close> as long as no
  coordinate leaves the range of a 64-bit integer.
\<close>

definition shift :: "Offset \<Rightarrow> Offset \<Rightarrow> Offset" where
  "shift p q = Offset (X p + X q) (Y p + Y q)"

definition diff :: "Offset \<Rightarrow> Offset \<Rightarrow> Offset" where
  "diff p q = Offset (X p - X q) (Y p - Y q)"

definition scale :: "Offset \<Rightarrow> int \<Rightarrow> Offset" where
  "scale p s = Offset (X p * s) (Y p * s)"

definition distance :: "Offset \<Rightarrow> int" where
  "distance p = max \<bar>X p\<bar> \<bar>Y p\<bar>"

definition MaxInt64 :: int where
  "MaxInt64 = 9223372036854775807"


text \<open>The caches hold nothing but what the builders compute.\<close>

definition caches_ok :: "caches \<Rightarrow> bool" where
  "caches_ok c \<longleftrightarrow>
     (\<forall>r t. tableCache c r = Some t \<longrightarrow> t = computeTable r) \<and>
     (\<forall>r t. reverseTableCache c r = Some t \<longrightarrow> t = reverse_of (computeTable r))"

definition no_caches :: caches where
  "no_caches = \<lparr>tableCache = Map.empty, reverseTableCache = Map.empty\<rparr>"

text \<open>The keys of a table, and: \<open>s\<close> is a key whose set contains \<open>d\<close>.\<close>

definition keys :: "table \<Rightarrow> Offset set" where
  "keys t = fst ` set t"

definition links :: "table \<Rightarrow> Offset \<Rightarrow> Offset \<Rightarrow> bool" where
  "links t s d = (case map_of t s of None \<Rightarrow> False | Some ns \<Rightarrow> d \<in> set ns)"

definition edges :: "table \<Rightarrow> (Offset \<times> Offset) set" where
  "edges t = {(s, d). d \<in> set (neighbors_of t s)}"

text \<open>
  What one run of the inner loop contributes from row \<open>y0\<close> on, the break rows as the
  outer loop computes them, and the octant that results.
\<close>

definition row_from :: "int \<Rightarrow> int \<Rightarrow> int \<Rightarrow> (Offset \<times> Offset) set" where
  "row_from x cb y0 =
     {(Offset x y, Offset (x + 1) y) | y. y0 \<le> y \<and> y \<le> x \<and> y \<le> cb} \<union>
     {(Offset x y, Offset (x + 1) (y + 1)) | y. y0 \<le> y \<and> y \<le> x \<and> cb \<le> y}"

fun brk :: "nat \<Rightarrow> int \<times> int" where
  "brk 0 = (0, 0)"
| "brk (Suc n) =
     (case brk n of (cb, bc) \<Rightarrow> if bc - 1 < 0 then (cb + 1, cb + 1) else (cb, bc - 1))"

definition break_at :: "int \<Rightarrow> int" where
  "break_at x = fst (brk (nat (x - 1)))"

definition octant :: "int \<Rightarrow> (Offset \<times> Offset) set" where
  "octant n = (\<Union>x\<in>{0..<n}. row_from x (break_at x) 0)"

text \<open>The reflections, and the eight symmetries they generate.\<close>

definition swp :: "Offset \<Rightarrow> Offset" where "swp p = Offset (Y p) (X p)"
definition negX :: "Offset \<Rightarrow> Offset" where "negX p = Offset (- X p) (Y p)"
definition negY :: "Offset \<Rightarrow> Offset" where "negY p = Offset (X p) (- Y p)"
definition negXY :: "Offset \<Rightarrow> Offset" where "negXY p = Offset (- X p) (- Y p)"

definition syms :: "(Offset \<Rightarrow> Offset) set" where
  "syms = {id, negX, negY, negXY, swp, negX \<circ> swp, negY \<circ> swp, negXY \<circ> swp}"

definition closure8 :: "(Offset \<times> Offset) set \<Rightarrow> (Offset \<times> Offset) set" where
  "closure8 E = (\<Union>g\<in>syms. map_prod g g ` E)"

definition image_at ::
  "(Offset \<Rightarrow> Offset) set \<Rightarrow> Offset \<Rightarrow> (Offset \<times> Offset) set \<Rightarrow> (Offset \<times> Offset) set" where
  "image_at G k E = {(g k, g d) | g d. g \<in> G \<and> (k, d) \<in> E}"

definition canon :: "Offset \<Rightarrow> Offset" where
  "canon p = Offset (max \<bar>X p\<bar> \<bar>Y p\<bar>) (min \<bar>X p\<bar> \<bar>Y p\<bar>)"

definition orient :: "Offset \<Rightarrow> Offset \<Rightarrow> Offset" where
  "orient d a =
     (if \<bar>Y d\<bar> \<le> \<bar>X d\<bar> then Offset (sgn (X d) * X a) (sgn (Y d) * Y a)
      else Offset (sgn (X d) * Y a) (sgn (Y d) * X a))"

definition listed :: "table \<Rightarrow> (Offset \<times> Offset) set" where
  "listed t = {(s, d). \<exists>ns. (s, ns) \<in> set t \<and> d \<in> set ns}"

definition predecessor :: "caches \<Rightarrow> int \<Rightarrow> Offset \<Rightarrow> Offset" where
  "predecessor c radius p = pred_of (fst (computeReverseTable c radius)) p"

definition reverse_key :: "caches \<Rightarrow> int \<Rightarrow> Offset \<Rightarrow> bool" where
  "reverse_key c radius p \<longleftrightarrow> fst (computeReverseTable c radius) p \<noteq> None"

text \<open>The neighbour that \<^verbatim>\<open>tile.Adjacent[adj.Sub(off)]\<close> finds.\<close>

definition neighbor_at :: "heap \<Rightarrow> nat \<Rightarrow> Offset \<Rightarrow> Offset \<Rightarrow> ptr" where
  "neighbor_at h t off adj = Adjacent (h t) (Sub adj off)"

definition lit :: "heap \<Rightarrow> ptr \<Rightarrow> bool" where
  "lit h p = (case p of None \<Rightarrow> False | Some n \<Rightarrow> Lite (h n))"

definition height :: "int \<Rightarrow> Offset \<Rightarrow> nat" where
  "height radius p = nat (max radius 1 - distance p)"

definition flood_order :: "int \<Rightarrow> (Offset list \<times> Offset list) set" where
  "flood_order radius = inv_image (mult less_than) (\<lambda>stack. mset (map (height radius) stack))"

definition flood_inv :: "table \<Rightarrow> heap \<Rightarrow> ptr \<Rightarrow> fov \<Rightarrow> Offset list \<Rightarrow> bool" where
  "flood_inv T h origin fov stack \<longleftrightarrow>
     fov (Offset 0 0) = Some origin \<and>
     distinct stack \<and>
     (\<forall>d. d \<noteq> Offset 0 0 \<longrightarrow> fov d \<noteq> None \<longrightarrow>
        (\<exists>s ts. (s, d) \<in> edges T \<and> s \<notin> set stack \<and> fov s = Some (Some ts) \<and>
           (s = Offset 0 0 \<or> Lite (h ts)) \<and> Adjacent (h ts) (Sub d s) \<noteq> None \<and>
           fov d = Some (Adjacent (h ts) (Sub d s)))) \<and>
     (\<forall>s\<in>set stack.
        (\<exists>ts. fov s = Some (Some ts) \<and> (s = Offset 0 0 \<or> Lite (h ts))) \<and>
        (\<forall>d. (s, d) \<in> edges T \<longrightarrow> fov d = None)) \<and>
     (\<forall>s ts d. fov s = Some (Some ts) \<longrightarrow> (s = Offset 0 0 \<or> Lite (h ts)) \<longrightarrow>
        (s, d) \<in> edges T \<longrightarrow> s \<notin> set stack \<longrightarrow> fov d \<noteq> None)"

text \<open>
  The four blocks of \<^verbatim>\<open>wallfix\<close> are one loop up to the direction \<open>dir\<close> of the ray
  and the direction \<open>perp\<close> across it; \<open>i\<close> counts the steps from the origin.
\<close>

function wallfix_ray :: "heap \<Rightarrow> int \<Rightarrow> Offset \<Rightarrow> Offset \<Rightarrow> int \<Rightarrow> fov \<Rightarrow> error + fov" where
  "wallfix_ray h radius dir perp i fov =
     (if i \<le> radius then
        (if fov (scale dir i) \<noteq> None then
           (case tile_at fov (scale dir (i - 1)) of
              None \<Rightarrow> Inl NilDereference
            | Some pos \<Rightarrow>
                wallfix_ray h radius dir perp (i + 1)
                  (fov(shift (scale dir i) perp \<mapsto> Adjacent (h pos) (shift dir perp),
                       diff (scale dir i) perp \<mapsto> Adjacent (h pos) (diff dir perp))))
         else Inr fov)
      else Inr fov)"
  by pat_completeness auto
termination
  by (relation "measure (\<lambda>(h, radius, dir, perp, i, fov). nat (radius + 1 - i))") auto

declare wallfix_ray.simps [simp del]

text \<open>The offsets that \<^verbatim>\<open>wallfix\<close> may write for a radius.\<close>

definition patch :: "int \<Rightarrow> Offset \<Rightarrow> bool" where
  "patch radius p \<longleftrightarrow>
     (\<bar>Y p\<bar> = 1 \<and> 1 \<le> \<bar>X p\<bar> \<and> \<bar>X p\<bar> \<le> radius) \<or>
     (\<bar>X p\<bar> = 1 \<and> 1 \<le> \<bar>Y p\<bar> \<and> \<bar>Y p\<bar> \<le> radius)"

definition rays :: "(Offset \<times> Offset) set" where
  "rays = {(Offset 1 0, Offset 0 1), (Offset (- 1) 0, Offset 0 1),
           (Offset 0 1, Offset 1 0), (Offset 0 (- 1), Offset 1 0)}"

definition wall_ok :: "fov \<Rightarrow> bool" where
  "wall_ok fov \<longleftrightarrow>
     (\<forall>p. X p = 0 \<or> Y p = 0 \<longrightarrow> fov p \<noteq> None \<longrightarrow> fov p \<noteq> Some None) \<and> fov (Offset 0 0) \<noteq> None"

text \<open>
  The value \<open>v\<close> is what some block of \<^verbatim>\<open>wallfix\<close> writes at \<open>p\<close>: the neighbour, in a
  diagonal direction, of the tile recorded one step nearer to the origin on the ray.
\<close>

definition patched :: "heap \<Rightarrow> int \<Rightarrow> fov \<Rightarrow> Offset \<Rightarrow> ptr option \<Rightarrow> bool" where
  "patched h radius fov p v \<longleftrightarrow>
     (\<exists>dir perp k pos. (dir, perp) \<in> rays \<and> 1 \<le> k \<and> k \<le> radius \<and>
        tile_at fov (scale dir (k - 1)) = Some pos \<and>
        ((p = shift (scale dir k) perp \<and> v = Some (Adjacent (h pos) (shift dir perp))) \<or>
         (p = diff (scale dir k) perp \<and> v = Some (Adjacent (h pos) (diff dir perp)))))"

text \<open>
  How a call of \<^verbatim>\<open>FoV\<close> ended, and the entry of the returned map at an offset
  (\<open>None\<close> when the offset is no key or when no map was returned).
\<close>

definition FoV_returns :: "caches \<Rightarrow> heap \<Rightarrow> ptr \<Rightarrow> int \<Rightarrow> bool" where
  "FoV_returns c h origin radius =
     (case FoV c h origin radius of Some (Inr F, c') \<Rightarrow> True | _ \<Rightarrow> False)"

definition FoV_fails :: "caches \<Rightarrow> heap \<Rightarrow> ptr \<Rightarrow> int \<Rightarrow> bool" where
  "FoV_fails c h origin radius =
     (case FoV c h origin radius of Some (Inl e, c') \<Rightarrow> True | _ \<Rightarrow> False)"

definition FoV_entry :: "caches \<Rightarrow> heap \<Rightarrow> ptr \<Rightarrow> int \<Rightarrow> Offset \<Rightarrow> ptr option" where
  "FoV_entry c h origin radius p =
     (case FoV c h origin radius of Some (Inr F, c') \<Rightarrow> F p | _ \<Rightarrow> None)"

text \<open>
  A rectangular map of \<open>w\<close> by \<open>hh\<close> tiles for examples: tile \<open>n\<close> stands at column
  \<open>n mod w\<close> of row \<open>n div w\<close>, is linked to its up to eight neighbours on the map, and
  is transparent when listed in \<open>lits\<close>.
\<close>

definition grid :: "nat \<Rightarrow> nat \<Rightarrow> nat list \<Rightarrow> heap" where
  "grid w hh lits =
     (\<lambda>n. \<lparr>Lite = (n \<in> set lits),
            Offset' = Offset (int (n mod w)) (int (n div w)),
            Adjacent = (\<lambda>d.
              let x = int (n mod w) + X d; y = int (n div w) + Y d
              in if n < w * hh \<and> distance d = 1 \<and> 0 \<le> x \<and> x < int w \<and> 0 \<le> y \<and> y < int hh
                 then Some (nat y * w + nat x) else None)\<rparr>)"


text \<open>
  Tile \<open>n\<close> is reached at offset \<open>d\<close>: the table leads from \<open>(0, 0)\<close> to \<open>d\<close>, the
  adjacency links followed along the way lead from the origin tile \<open>a\<close> to \<open>n\<close>, and
  every tile strictly between the origin and \<open>d\<close> is transparent.
\<close>

inductive reach :: "table \<Rightarrow> heap \<Rightarrow> nat \<Rightarrow> Offset \<Rightarrow> nat \<Rightarrow> bool" for T h a where
  origin: "reach T h a (Offset 0 0) a"
| step: "reach T h a s ts \<Longrightarrow> s = Offset 0 0 \<or> Lite (h ts) \<Longrightarrow> links T s d \<Longrightarrow>
         Adjacent (h ts) (Sub d s) = Some n \<Longrightarrow> reach T h a d n"

text \<open>Whether \<^verbatim>\<open>LoS\<close> returned \<^verbatim>\<open>true\<close>.\<close>

definition LoS_true :: "caches \<Rightarrow> heap \<Rightarrow> ptr \<Rightarrow> ptr \<Rightarrow> bool" where
  "LoS_true c h origin goal =
     (case LoS c h origin goal of Some (Inr b, c') \<Rightarrow> b | _ \<Rightarrow> False)"

text \<open>
  The tiles \<open>S\<close> form a grid: a link leads to the tile of \<open>S\<close> whose position is the
  sum of position and direction, tiles of \<open>S\<close> one step apart are linked, and no two
  tiles of \<open>S\<close> share a position.
\<close>

definition grid_like :: "heap \<Rightarrow> nat set \<Rightarrow> bool" where
  "grid_like h S \<longleftrightarrow>
     (\<forall>t\<in>S. \<forall>d n. Adjacent (h t) d = Some n \<longrightarrow>
        n \<in> S \<and> Offset' (h n) = shift (Offset' (h t)) d) \<and>
     (\<forall>t\<in>S. \<forall>n\<in>S. \<forall>d. distance d = 1 \<longrightarrow> Offset' (h n) = shift (Offset' (h t)) d \<longrightarrow>
        Adjacent (h t) d = Some n) \<and>
     (\<forall>t\<in>S. \<forall>n\<in>S. Offset' (h t) = Offset' (h n) \<longrightarrow> t = n)"

text \<open>
  Three tiles whose links do not fit their positions: every link of tile 1 leads to
  tile 0, every other link leads to tile 2, which is the only opaque tile.
\<close>

definition one_way :: heap where
  "one_way =
     (\<lambda>n. \<lparr>Lite = (n \<noteq> 2),
            Offset' = (if n = 0 then Offset 0 0 else if n = 1 then Offset 1 0 else Offset 5 5),
            Adjacent = (\<lambda>d. if n = 1 then Some 0 else Some 2)\<rparr>)"

section \<open>The table builder\<close>

subsection \<open>Edges and keys of a table under \<^verbatim>\<open>addEntry\<close>\<close>


lemma neighbors_of_addEntry:
  "neighbors_of (addEntry t s d) k =
     (if k = s then set_insert d (neighbors_of t s) else neighbors_of t k)"
  by (simp add: addEntry_def neighbors_of_def update_conv')

lemma set_set_insert: "set (set_insert d ns) = insert d (set ns)"
  by (auto simp: set_insert_def)

lemma edges_addEntry: "edges (addEntry t s d) = insert (s, d) (edges t)"
  by (auto simp: edges_def neighbors_of_addEntry set_set_insert split: if_splits)

lemma keys_addEntry: "keys (addEntry t s d) = insert s (keys t)"
  by (simp add: keys_def addEntry_def dom_update)

lemma edges_Nil: "edges [] = {}"
  by (simp add: edges_def neighbors_of_def)

lemma row_from_step:
  "y \<le> x \<Longrightarrow> row_from x cb y =
     (if y \<le> cb then {(Offset x y, Offset (x + 1) y)} else {}) \<union>
     (if cb \<le> y then {(Offset x y, Offset (x + 1) (y + 1))} else {}) \<union> row_from x cb (y + 1)"
  unfolding row_from_def
  apply (rule set_eqI)
  apply (auto)
  done

lemma row_from_empty: "x < y \<Longrightarrow> row_from x cb y = {}"
  by (auto simp: row_from_def)

lemma edges_row_loop:
  "nextY = (if y \<le> cb then y else y + 1) \<Longrightarrow>
   edges (row_loop x cb y nextY t) = edges t \<union> row_from x cb y"
proof (induction x cb y nextY t rule: row_loop.induct)
  case (1 x cb y nextY t)
  show ?case
  proof (cases "y \<le> x")
    case False
    then show ?thesis by (simp add: row_from_empty row_loop.simps[of x cb y nextY t])
  next
    case True
    show ?thesis
    proof (cases "y = cb")
      case True
      with \<open>y \<le> x\<close> 1 show ?thesis
        by (subst row_loop.simps, subst row_from_step) (auto simp: edges_addEntry)
    next
      case False
      with \<open>y \<le> x\<close> 1 show ?thesis
        by (subst row_loop.simps, subst row_from_step) (auto simp: edges_addEntry)
    qed
  qed
qed

lemma keys_row_loop:
  "keys (row_loop x cb y nextY t) = keys t \<union> {Offset x y' | y'. y \<le> y' \<and> y' \<le> x}"
proof (induction x cb y nextY t rule: row_loop.induct)
  case (1 x cb y nextY t)
  show ?case
  proof (cases "y \<le> x")
    case False
    then show ?thesis by (auto simp: row_loop.simps[of x cb y nextY t])
  next
    case True
    have *: "{Offset x y' | y'. y \<le> y' \<and> y' \<le> x} = insert (Offset x y) {Offset x y' | y'. y + 1 \<le> y' \<and> y' \<le> x}"
      using True by (auto simp: order.order_iff_strict)
    show ?thesis
      using True 1 by (subst row_loop.simps) (auto simp: keys_addEntry *)
  qed
qed


lemma brk_bounds: "0 \<le> fst (brk n) \<and> fst (brk n) \<le> int n"
  by (induction n) (auto split: prod.splits)

lemma break_at_bounds: "0 \<le> break_at x" "1 \<le> x \<Longrightarrow> break_at x < x" "0 \<le> x \<Longrightarrow> break_at x \<le> x"
  using brk_bounds[of "nat (x - 1)"] by (auto simp: break_at_def split: if_splits)

lemma atLeastLessThan_int_step: "(x::int) < n \<Longrightarrow> {x..<n} = insert x {x + 1..<n}"
  by auto

lemma edges_ring_loop:
  "1 \<le> x \<Longrightarrow> (cb, bc) = brk (nat (x - 1)) \<Longrightarrow>
   edges (ring_loop radius x cb bc t) = edges t \<union> (\<Union>x'\<in>{x..<radius}. row_from x' (break_at x') 0)"
proof (induction radius x cb bc t rule: ring_loop.induct)
  case (1 radius x cb bc t)
  show ?case
  proof (cases "x < radius")
    case False
    then show ?thesis by (simp add: ring_loop.simps[of radius x cb bc t])
  next
    case True
    have nat_eq: "nat (x + 1 - 1) = Suc (nat (x - 1))" using 1(3) by simp
    have cb: "break_at x = cb" using 1(4) by (simp add: break_at_def split: prod.splits) (metis fst_conv)
    have row: "edges (row_loop x cb 0 0 t) = edges t \<union> row_from x (break_at x) 0"
      using break_at_bounds(1)[of x] cb by (subst edges_row_loop) auto
    show ?thesis
    proof (cases "bc - 1 < 0")
      case T2: True
      have "(cb + 1, cb + 1) = brk (nat (x + 1 - 1))"
        using 1(4) T2 unfolding nat_eq by (simp split: prod.splits) (metis prod.inject)
      with 1(1)[OF True refl refl T2] 1(3) have
        "edges (ring_loop radius (x + 1) (cb + 1) (cb + 1) (row_loop x cb 0 0 t)) =
           edges (row_loop x cb 0 0 t) \<union> (\<Union>x'\<in>{x + 1..<radius}. row_from x' (break_at x') 0)"
        by simp
      then show ?thesis
        using True T2 row
        by (simp add: ring_loop.simps[of radius x cb bc t] Let_def atLeastLessThan_int_step[OF True] Un_assoc)
    next
      case F2: False
      have "(cb, bc - 1) = brk (nat (x + 1 - 1))"
        using 1(4) F2 unfolding nat_eq by (simp split: prod.splits) (metis prod.inject)
      with 1(2)[OF True refl refl F2] 1(3) have
        "edges (ring_loop radius (x + 1) cb (bc - 1) (row_loop x cb 0 0 t)) =
           edges (row_loop x cb 0 0 t) \<union> (\<Union>x'\<in>{x + 1..<radius}. row_from x' (break_at x') 0)"
        by simp
      then show ?thesis
        using True F2 row
        by (simp add: ring_loop.simps[of radius x cb bc t] Let_def atLeastLessThan_int_step[OF True] Un_assoc)
    qed
  qed
qed

lemma keys_ring_loop:
  "keys (ring_loop radius x cb bc t) = keys t \<union> {Offset x' y' | x' y'. x \<le> x' \<and> x' < radius \<and> 0 \<le> y' \<and> y' \<le> x'}"
proof (induction radius x cb bc t rule: ring_loop.induct)
  case (1 radius x cb bc t)
  show ?case
  proof (cases "x < radius")
    case False
    then show ?thesis by (auto simp: ring_loop.simps[of radius x cb bc t])
  next
    case True
    have *: "{Offset x' y' | x' y'. x \<le> x' \<and> x' < radius \<and> 0 \<le> y' \<and> y' \<le> x'} =
      {Offset x y' | y'. 0 \<le> y' \<and> y' \<le> x} \<union> {Offset x' y' | x' y'. x + 1 \<le> x' \<and> x' < radius \<and> 0 \<le> y' \<and> y' \<le> x'}"
      using True by (auto simp: order.order_iff_strict)
    show ?thesis
      using True 1(1)[OF True refl refl] 1(2)[OF True refl refl]
      by (cases "bc - 1 < 0") (simp_all add: ring_loop.simps[of radius x cb bc t] Let_def keys_row_loop * Un_assoc)
  qed
qed


lemma edges_source_key: "(s, d) \<in> edges t \<Longrightarrow> s \<in> keys t"
proof -
  assume "(s, d) \<in> edges t"
  then have "map_of t s \<noteq> None"
    by (cases "map_of t s") (auto simp: edges_def neighbors_of_def)
  then show ?thesis by (simp add: keys_def map_of_eq_None_iff)
qed

lemma edges_swap_entries:
  "edges (swap_entries key ps t) = edges t \<union> (\<lambda>p. (swp key, swp p)) ` set ps"
  unfolding swap_entries_def
  by (induction ps arbitrary: t) (auto simp: edges_addEntry swp_def)

lemma edges_negate_entries:
  "edges (negate_entries key ps t) =
     edges t \<union> (\<lambda>p. (negX key, negX p)) ` set ps \<union> (\<lambda>p. (negY key, negY p)) ` set ps
       \<union> (\<lambda>p. (negXY key, negXY p)) ` set ps"
  unfolding negate_entries_def
  by (induction ps arbitrary: t) (auto simp: edges_addEntry negX_def negY_def negXY_def)

lemma swap_step: "edges (swap_entries k (neighbors_of t k) t) = edges t \<union> image_at {swp} k (edges t)"
  by (subst edges_swap_entries) (auto simp: image_at_def edges_def)

lemma negate_step:
  "edges (negate_entries k (neighbors_of t k) t) = edges t \<union> image_at {negX, negY, negXY} k (edges t)"
  by (subst edges_negate_entries) (auto simp: image_at_def edges_def)

lemma fold_step_mono:
  assumes step: "\<And>k t. edges (step k t) = edges t \<union> image_at G k (edges t)"
  shows "edges t \<subseteq> edges (fold step ks t)"
proof (induction ks arbitrary: t)
  case Nil
  then show ?case by simp
next
  case (Cons k ks)
  have "edges t \<subseteq> edges (step k t)" by (simp add: step)
  also have "\<dots> \<subseteq> edges (fold step ks (step k t))" by (rule Cons.IH)
  finally show ?case by simp
qed

lemma fold_step_upper:
  assumes step: "\<And>k t. edges (step k t) = edges t \<union> image_at G k (edges t)"
    and closed: "\<And>g e. g \<in> G \<Longrightarrow> e \<in> C \<Longrightarrow> map_prod g g e \<in> C"
  shows "edges t \<subseteq> C \<Longrightarrow> edges (fold step ks t) \<subseteq> C"
proof (induction ks arbitrary: t)
  case Nil
  then show ?case by simp
next
  case (Cons k ks)
  have "image_at G k (edges t) \<subseteq> C"
    using Cons.prems closed by (fastforce simp: image_at_def)
  with Cons.prems have "edges (step k t) \<subseteq> C" by (simp add: step)
  from Cons.IH[OF this] show ?case by simp
qed

lemma fold_step_lower:
  assumes step: "\<And>k t. edges (step k t) = edges t \<union> image_at G k (edges t)"
  shows "k \<in> set ks \<Longrightarrow> (k, d) \<in> edges t \<Longrightarrow> g \<in> G \<Longrightarrow> (g k, g d) \<in> edges (fold step ks t)"
proof (induction ks arbitrary: t)
  case Nil
  then show ?case by simp
next
  case (Cons k' ks)
  show ?case
  proof (cases "k = k'")
    case True
    have "(g k, g d) \<in> edges (step k' t)"
      using Cons.prems True by (auto simp: step image_at_def)
    with fold_step_mono[OF step, of "step k' t" ks] show ?thesis by auto
  next
    case False
    with Cons.prems have "k \<in> set ks" by simp
    moreover have "(k, d) \<in> edges (step k' t)" using Cons.prems by (simp add: step)
    ultimately show ?thesis using Cons.IH[of "step k' t"] Cons.prems(3) by simp
  qed
qed

lemma fold_step_exact:
  assumes step: "\<And>k t. edges (step k t) = edges t \<union> image_at G k (edges t)"
    and closed: "\<And>g e. g \<in> G \<Longrightarrow> e \<in> edges t \<union> (\<Union>g\<in>G. map_prod g g ` edges t) \<Longrightarrow>
        map_prod g g e \<in> edges t \<union> (\<Union>g\<in>G. map_prod g g ` edges t)"
  shows "edges (fold step (map fst t) t) = edges t \<union> (\<Union>g\<in>G. map_prod g g ` edges t)"
proof (rule equalityI)
  show "edges (fold step (map fst t) t) \<subseteq> edges t \<union> (\<Union>g\<in>G. map_prod g g ` edges t)"
    by (rule fold_step_upper[OF step closed]) auto
next
  have "edges t \<subseteq> edges (fold step (map fst t) t)" by (rule fold_step_mono[OF step])
  moreover have "map_prod g g e \<in> edges (fold step (map fst t) t)" if "g \<in> G" "e \<in> edges t" for g e
  proof -
    obtain k d where e: "e = (k, d)" by (cases e)
    with that have "k \<in> set (map fst t)" using edges_source_key[of k d t] by (simp add: keys_def)
    from fold_step_lower[OF step this] that e show ?thesis by simp
  qed
  ultimately show "edges t \<union> (\<Union>g\<in>G. map_prod g g ` edges t) \<subseteq> edges (fold step (map fst t) t)"
    by auto
qed

lemma sym_simps [simp]:
  "swp (swp p) = p" "negX (negX p) = p" "negY (negY p) = p" "negXY (negXY p) = p"
  "negX (negY p) = negXY p" "negY (negX p) = negXY p"
  "negX (negXY p) = negY p" "negXY (negX p) = negY p"
  "negY (negXY p) = negX p" "negXY (negY p) = negX p"
  by (cases p; simp add: swp_def negX_def negY_def negXY_def)+

lemma sym_comp:
  "swp \<circ> swp = id" "negX \<circ> negX = id" "negY \<circ> negY = id" "negXY \<circ> negXY = id"
  "negX \<circ> negY = negXY" "negY \<circ> negX = negXY"
  "negX \<circ> negXY = negY" "negXY \<circ> negX = negY"
  "negY \<circ> negXY = negX" "negXY \<circ> negY = negX"
  by (rule ext, simp)+

lemma closed_under:
  assumes comp: "\<And>g h. g \<in> G \<Longrightarrow> h \<in> G \<Longrightarrow> g \<circ> h = id \<or> g \<circ> h \<in> G"
    and g: "g \<in> G" and e: "e \<in> E \<union> (\<Union>g\<in>G. map_prod g g ` E)"
  shows "map_prod g g e \<in> E \<union> (\<Union>g\<in>G. map_prod g g ` E)"
proof (cases "e \<in> E")
  case True
  with g show ?thesis by blast
next
  case False
  with e obtain h e0 where h: "h \<in> G" "e0 \<in> E" "e = map_prod h h e0" by auto
  have eq: "map_prod g g e = map_prod (g \<circ> h) (g \<circ> h) e0"
    by (cases e0) (simp add: h(3))
  from comp[OF g h(1)] show ?thesis
  proof
    assume "g \<circ> h = id"
    with eq h(2) show ?thesis by (cases e0) simp
  next
    assume "g \<circ> h \<in> G"
    with eq h(2) show ?thesis by blast
  qed
qed

lemma edges_completeTable: "edges (completeTable t) = closure8 (edges t)"
proof -
  define t1 where "t1 = fold (\<lambda>key t. swap_entries key (neighbors_of t key) t) (map fst t) t"
  have e1: "edges t1 = edges t \<union> (\<Union>g\<in>{swp}. map_prod g g ` edges t)"
    unfolding t1_def
    by (rule fold_step_exact[OF swap_step], rule closed_under) (auto simp: sym_comp)
  have e2: "edges (fold (\<lambda>key t. negate_entries key (neighbors_of t key) t) (map fst t1) t1) =
      edges t1 \<union> (\<Union>g\<in>{negX, negY, negXY}. map_prod g g ` edges t1)"
    by (rule fold_step_exact[OF negate_step], rule closed_under) (auto simp: sym_comp)
  have "edges (completeTable t) = edges t1 \<union> (\<Union>g\<in>{negX, negY, negXY}. map_prod g g ` edges t1)"
    using e2 by (simp add: completeTable_def Let_def t1_def)
  also have "\<dots> = closure8 (edges t)"
  proof -
    have c: "(\<lambda>x. map_prod g g (map_prod h h x)) = map_prod (g \<circ> h) (g \<circ> h)"
      for g h :: "Offset \<Rightarrow> Offset"
      by (auto simp: fun_eq_iff)
    have i: "map_prod id id ` E = E" for E :: "(Offset \<times> Offset) set"
      by (simp add: prod.map_id0)
    show ?thesis
      unfolding e1 closure8_def syms_def
      by (simp add: image_Un image_comp map_prod.comp i Un_ac)
  qed
  finally show ?thesis .
qed


subsection \<open>Invariants carried by every table operation\<close>

lemma row_loop_inv:
  assumes add: "\<And>t s d. P t \<Longrightarrow> P (addEntry t s d)"
  shows "P t \<Longrightarrow> P (row_loop x cb y nextY t)"
proof (induction x cb y nextY t rule: row_loop.induct)
  case (1 x cb y nextY t)
  show ?case
  proof (cases "y \<le> x")
    case False
    with 1(3) show ?thesis by (simp add: row_loop.simps[of x cb y nextY t])
  next
    case True
    show ?thesis
    proof (cases "y = cb")
      case eq: True
      have "P (addEntry (addEntry t (Offset x y) (Offset (x + 1) nextY))
                (Offset x y) (Offset (x + 1) (nextY + 1)))"
        by (intro add 1(3))
      from 1(1)[OF True eq this] True eq show ?thesis
        by (subst row_loop.simps) simp
    next
      case neq: False
      have "P (addEntry t (Offset x y) (Offset (x + 1) nextY))"
        by (intro add 1(3))
      from 1(2)[OF True neq this] True neq show ?thesis
        by (subst row_loop.simps) simp
    qed
  qed
qed

lemma ring_loop_inv:
  assumes add: "\<And>t s d. P t \<Longrightarrow> P (addEntry t s d)"
  shows "P t \<Longrightarrow> P (ring_loop radius x cb bc t)"
proof (induction radius x cb bc t rule: ring_loop.induct)
  case (1 radius x cb bc t)
  show ?case
  proof (cases "x < radius")
    case False
    with 1(3) show ?thesis by (simp add: ring_loop.simps[of radius x cb bc t])
  next
    case True
    have "P (row_loop x cb 0 0 t)" using add 1(3) by (rule row_loop_inv[where P = P])
    with True 1(1)[OF True refl refl] 1(2)[OF True refl refl] show ?thesis
      by (cases "bc - 1 < 0") (simp_all add: ring_loop.simps[of radius x cb bc t] Let_def)
  qed
qed

lemma fold_inv:
  assumes "\<And>x t. P t \<Longrightarrow> P (f x t)"
  shows "P t \<Longrightarrow> P (fold f xs t)"
  using assms by (induction xs arbitrary: t) auto

lemma completeTable_inv:
  assumes add: "\<And>t s d. P t \<Longrightarrow> P (addEntry t s d)"
  shows "P t \<Longrightarrow> P (completeTable t)"
proof -
  assume t: "P t"
  have sw: "P (swap_entries k ps t)" if "P t" for k ps t
    unfolding swap_entries_def using that by (rule fold_inv[where P = P, rotated]) (rule add)
  have ng: "P (negate_entries k ps t)" if "P t" for k ps t
    unfolding negate_entries_def using that by (rule fold_inv[where P = P, rotated]) (intro add)
  have "P (fold (\<lambda>key t. swap_entries key (neighbors_of t key) t) ks t)" for ks
    using t by (rule fold_inv[where P = P, rotated]) (rule sw)
  then show ?thesis
    unfolding completeTable_def Let_def
    by (rule fold_inv[where P = P, rotated]) (rule ng)
qed

lemma computeTable_inv:
  assumes add: "\<And>t s d. P t \<Longrightarrow> P (addEntry t s d)" and nil: "P []"
  shows "P (computeTable radius)"
  unfolding computeTable_def
  by (rule completeTable_inv[where P = P, OF add], assumption,
      rule ring_loop_inv[where P = P, OF add], assumption, intro add nil)

lemma keys_have_edges: "keys (computeTable radius) \<subseteq> fst ` edges (computeTable radius)"
proof (rule computeTable_inv[where P = "\<lambda>t. keys t \<subseteq> fst ` edges t"])
  show "keys (addEntry t s d) \<subseteq> fst ` edges (addEntry t s d)" if "keys t \<subseteq> fst ` edges t" for t s d
    using that by (auto simp: keys_addEntry edges_addEntry)
  show "keys [] \<subseteq> fst ` edges []" by (simp add: keys_def)
qed

lemma keys_computeTable: "keys (computeTable radius) = fst ` edges (computeTable radius)"
  using keys_have_edges edges_source_key by fastforce

subsection \<open>The edges of the computed table\<close>

lemma row_from_0: "row_from 0 0 0 = {(Offset 0 0, Offset 1 0), (Offset 0 0, Offset 1 1)}"
  by (auto simp: row_from_def)

lemma octant_split: "1 \<le> n \<Longrightarrow> octant n = row_from 0 0 0 \<union> (\<Union>x\<in>{1..<n}. row_from x (break_at x) 0)"
proof -
  assume "1 \<le> n"
  then have "{0..<n} = insert 0 {1..<n}" by auto
  then show ?thesis by (simp add: octant_def break_at_def)
qed

lemma edges_computeTable: "edges (computeTable radius) = closure8 (octant (max radius 1))"
proof -
  have seed: "edges (addEntry (addEntry [] (Offset 0 0) (Offset 1 0)) (Offset 0 0) (Offset 1 1)) = row_from 0 0 0"
    by (auto simp: edges_addEntry edges_Nil row_from_0)
  have b: "(0, 0) = brk (nat (1 - 1))" by simp
  have "{1..<radius} = {1..<max radius 1}" by auto
  then show ?thesis
    unfolding computeTable_def edges_completeTable
    by (simp add: edges_ring_loop[OF order_refl b] seed octant_split)
qed

lemma row_from_form:
  assumes "(a, b) \<in> row_from x cb 0"
  shows "X a = x" "0 \<le> Y a" "Y a \<le> x" "X b = x + 1" "Y b = Y a \<or> Y b = Y a + 1"
  using assms by (auto simp: row_from_def)

lemma row_from_unique:
  assumes "(a1, b) \<in> row_from x cb 0" "(a2, b) \<in> row_from x cb 0"
  shows "a1 = a2"
  using assms by (auto simp: row_from_def)

lemma octantE:
  assumes "(a, b) \<in> octant n"
  obtains "0 \<le> X a" "X a < n" "(a, b) \<in> row_from (X a) (break_at (X a)) 0"
proof -
  from assms obtain x where x: "0 \<le> x" "x < n" "(a, b) \<in> row_from x (break_at x) 0"
    by (auto simp: octant_def)
  from row_from_form(1)[OF x(3)] x that show ?thesis by simp
qed

lemma octant_form:
  assumes "(a, b) \<in> octant n"
  shows "0 \<le> Y a" "Y a \<le> X a" "X a < n" "X b = X a + 1" "Y b = Y a \<or> Y b = Y a + 1"
  using assms by (auto elim!: octantE dest: row_from_form)

lemma octant_unique:
  assumes "(a1, b) \<in> octant n" "(a2, b) \<in> octant n"
  shows "a1 = a2"
proof -
  from assms(1) have 1: "(a1, b) \<in> row_from (X a1) (break_at (X a1)) 0" by (rule octantE)
  from assms(2) have 2: "(a2, b) \<in> row_from (X a2) (break_at (X a2)) 0" by (rule octantE)
  from row_from_form(4)[OF 1] row_from_form(4)[OF 2] have "X a1 = X a2" by simp
  with 1 2 show ?thesis by (auto intro: row_from_unique)
qed

lemma octant_cover:
  assumes "1 \<le> x" "x \<le> n" "0 \<le> y" "y \<le> x"
  shows "\<exists>a. (a, Offset x y) \<in> octant n"
proof (cases "y \<le> break_at (x - 1)")
  case True
  with assms break_at_bounds(3)[of "x - 1"] have "(Offset (x - 1) y, Offset (x - 1 + 1) y) \<in> row_from (x - 1) (break_at (x - 1)) 0"
    by (auto simp: row_from_def)
  with assms show ?thesis by (auto simp: octant_def intro!: bexI[of _ "x - 1"])
next
  case False
  with assms break_at_bounds(1)[of "x - 1"]
  have "(Offset (x - 1) (y - 1), Offset (x - 1 + 1) (y - 1 + 1)) \<in> row_from (x - 1) (break_at (x - 1)) 0"
    by (auto simp: row_from_def)
  with assms show ?thesis by (auto simp: octant_def intro!: bexI[of _ "x - 1"])
qed

lemma octant_mono: "n \<le> m \<Longrightarrow> octant n \<subseteq> octant m"
  unfolding octant_def by (rule UN_mono) auto


subsection \<open>Symmetries and the Chebyshev distance\<close>

lemma distance_alt: "distance p = max \<bar>X p\<bar> \<bar>Y p\<bar>"
  by (simp add: distance_def)

lemma wrap_id: "- 9223372036854775808 \<le> x \<Longrightarrow> x < 9223372036854775808 \<Longrightarrow> wrap x = x"
  by (simp add: wrap_def)

lemma wrap_le: "0 \<le> x \<Longrightarrow> wrap x \<le> x"
  using zmod_le_nonneg_dividend[of "x + 9223372036854775808" 18446744073709551616]
  by (simp add: wrap_def)

lemma wrap_abs: "\<bar>x\<bar> < 9223372036854775808 \<Longrightarrow> wrap x = x"
  by (rule wrap_id) simp_all

lemma Sub_diff: "distance (diff p q) < 9223372036854775808 \<Longrightarrow> Sub p q = diff p q"
  by (simp add: Sub_def diff_def distance_def wrap_abs)

lemma Abs_le: "Abs x \<le> \<bar>x\<bar>"
  using wrap_le[of "- x"] by (simp add: Abs_def)

lemma Abs_abs: "\<bar>x\<bar> < 9223372036854775808 \<Longrightarrow> Abs x = \<bar>x\<bar>"
  using wrap_abs[of "- x"] by (simp add: Abs_def)

lemma Chebyshev_le: "Chebyshev p \<le> distance p"
  using Abs_le[of "X p"] Abs_le[of "Y p"] by (auto simp: Chebyshev_def Max'_def distance_def)

lemma Chebyshev_distance: "distance p < 9223372036854775808 \<Longrightarrow> Chebyshev p = distance p"
proof -
  assume "distance p < 9223372036854775808"
  then have "Abs (X p) = \<bar>X p\<bar>" "Abs (Y p) = \<bar>Y p\<bar>"
    by (simp_all add: distance_def Abs_abs)
  then show ?thesis by (simp add: Chebyshev_def Max'_def distance_def max_def)
qed

lemma syms_cases:
  assumes "g \<in> syms"
  obtains "g = id" | "g = negX" | "g = negY" | "g = negXY"
    | "g = swp" | "g = negX \<circ> swp" | "g = negY \<circ> swp" | "g = negXY \<circ> swp"
  using assms unfolding syms_def by blast

lemma sym_sel [simp]:
  "X (swp p) = Y p" "Y (swp p) = X p" "X (negX p) = - X p" "Y (negX p) = Y p"
  "X (negY p) = X p" "Y (negY p) = - Y p" "X (negXY p) = - X p" "Y (negXY p) = - Y p"
  by (simp_all add: swp_def negX_def negY_def negXY_def)

lemma distance_sym: "g \<in> syms \<Longrightarrow> distance (g p) = distance p"
  by (erule syms_cases) (simp_all add: distance_alt max.commute)

lemma sym_origin: "g \<in> syms \<Longrightarrow> g (Offset 0 0) = Offset 0 0"
  by (erule syms_cases) (simp_all add: swp_def negX_def negY_def negXY_def)

lemma canon_sym_inv: "g \<in> syms \<Longrightarrow> 0 \<le> Y b \<Longrightarrow> Y b \<le> X b \<Longrightarrow> canon (g b) = b"
  by (erule syms_cases) (simp_all add: canon_def Offset.expand)

lemma sym_of_canon: "\<exists>g\<in>syms. g (canon p) = p"
proof (cases "\<bar>Y p\<bar> \<le> \<bar>X p\<bar>")
  case True
  then have c: "canon p = Offset \<bar>X p\<bar> \<bar>Y p\<bar>" by (simp add: canon_def)
  consider "0 \<le> X p" "0 \<le> Y p" | "X p < 0" "0 \<le> Y p" | "0 \<le> X p" "Y p < 0" | "X p < 0" "Y p < 0"
    by linarith
  then show ?thesis
  proof cases
    case 1 then have "id (canon p) = p" by (simp add: c Offset.expand)
    then show ?thesis unfolding syms_def by blast
  next
    case 2 then have "negX (canon p) = p" by (simp add: c Offset.expand)
    then show ?thesis unfolding syms_def by blast
  next
    case 3 then have "negY (canon p) = p" by (simp add: c Offset.expand)
    then show ?thesis unfolding syms_def by blast
  next
    case 4 then have "negXY (canon p) = p" by (simp add: c Offset.expand)
    then show ?thesis unfolding syms_def by blast
  qed
next
  case False
  then have c: "canon p = Offset \<bar>Y p\<bar> \<bar>X p\<bar>" by (simp add: canon_def)
  consider "0 \<le> X p" "0 \<le> Y p" | "X p < 0" "0 \<le> Y p" | "0 \<le> X p" "Y p < 0" | "X p < 0" "Y p < 0"
    by linarith
  then show ?thesis
  proof cases
    case 1 then have "swp (canon p) = p" by (simp add: c Offset.expand)
    then show ?thesis unfolding syms_def by blast
  next
    case 2 then have "(negX \<circ> swp) (canon p) = p" by (simp add: c Offset.expand)
    then show ?thesis unfolding syms_def by blast
  next
    case 3 then have "(negY \<circ> swp) (canon p) = p" by (simp add: c Offset.expand)
    then show ?thesis unfolding syms_def by blast
  next
    case 4 then have "(negXY \<circ> swp) (canon p) = p" by (simp add: c Offset.expand)
    then show ?thesis unfolding syms_def by blast
  qed
qed

lemma orient_sym:
  assumes g: "g \<in> syms" and a: "0 \<le> Y a" "Y a \<le> X a" and b: "X b = X a + 1" "Y b = Y a \<or> Y b = Y a + 1"
  shows "g a = orient (g b) a"
proof -
  have xb: "0 < X b" "0 \<le> Y b" "Y b \<le> X b" "Y b = 0 \<Longrightarrow> Y a = 0" "Y b = X b \<Longrightarrow> Y a = X a"
    using a b by auto
  have sx: "sgn (X b) = 1" using xb(1) by simp
  have sy: "sgn (Y b) * Y a = Y a" using xb(2,4) by (cases "Y b = 0") auto
  have sy': "sgn (- Y b) * Y a = - Y a" using xb(2,4) by (cases "Y b = 0") auto
  have sxn: "sgn (- X b) = - 1" using xb(1) by simp
  from g show ?thesis
  proof (cases rule: syms_cases)
    case 1 then show ?thesis using xb sx sy by (simp add: orient_def Offset.expand)
  next
    case 2 then show ?thesis using xb sxn sy by (simp add: orient_def Offset.expand)
  next
    case 3 then show ?thesis using xb sx sy' by (simp add: orient_def Offset.expand)
  next
    case 4 then show ?thesis using xb sxn sy' by (simp add: orient_def Offset.expand)
  next
    case 5 then show ?thesis using xb sx sy by (cases "Y b = X b") (simp_all add: orient_def Offset.expand)
  next
    case 6 then show ?thesis using xb sx sy sy' by (cases "Y b = X b") (simp_all add: orient_def Offset.expand)
  next
    case 7 then show ?thesis using xb sx sxn sy by (cases "Y b = X b") (simp_all add: orient_def Offset.expand)
  next
    case 8 then show ?thesis using xb sx sxn sy sy' by (cases "Y b = X b") (simp_all add: orient_def Offset.expand)
  qed
qed

lemma closure8_iff: "(s, d) \<in> closure8 E \<longleftrightarrow> (\<exists>g\<in>syms. \<exists>a b. (a, b) \<in> E \<and> s = g a \<and> d = g b)"
proof
  assume "(s, d) \<in> closure8 E"
  then obtain g e where ge: "g \<in> syms" "e \<in> E" "(s, d) = map_prod g g e"
    unfolding closure8_def by auto
  then show "\<exists>g\<in>syms. \<exists>a b. (a, b) \<in> E \<and> s = g a \<and> d = g b"
    by (cases e) auto
next
  assume "\<exists>g\<in>syms. \<exists>a b. (a, b) \<in> E \<and> s = g a \<and> d = g b"
  then obtain g a b where g: "g \<in> syms" "(a, b) \<in> E" "s = g a" "d = g b" by blast
  then have "(s, d) = map_prod g g (a, b)" by simp
  with g(1,2) show "(s, d) \<in> closure8 E" unfolding closure8_def by blast
qed

subsection \<open>Structure of the computed table\<close>

lemma table_edgeE:
  assumes "(s, d) \<in> edges (computeTable radius)"
  obtains g a b where "g \<in> syms" "(a, b) \<in> octant (max radius 1)" "s = g a" "d = g b"
  using assms unfolding edges_computeTable closure8_iff by blast

lemma octant_distance:
  assumes "(a, b) \<in> octant n"
  shows "distance a = X a" "distance b = X a + 1"
  using octant_form[OF assms] by (auto simp: distance_alt)

lemma table_ring:
  assumes "(s, d) \<in> edges (computeTable radius)"
  shows "distance d = distance s + 1" "0 \<le> distance s" "distance s < max radius 1"
proof -
  from assms obtain g a b where g: "g \<in> syms" "(a, b) \<in> octant (max radius 1)" "s = g a" "d = g b"
    by (rule table_edgeE)
  from octant_distance[OF g(2)] octant_form[OF g(2)] g(1,3,4)
  show "distance d = distance s + 1" "0 \<le> distance s" "distance s < max radius 1"
    by (simp_all add: distance_sym)
qed

lemma table_unique_pred:
  assumes "(s1, d) \<in> edges (computeTable radius)" "(s2, d) \<in> edges (computeTable radius)"
  shows "s1 = s2"
proof -
  from assms(1) obtain g1 a1 b1 where 1: "g1 \<in> syms" "(a1, b1) \<in> octant (max radius 1)" "s1 = g1 a1" "d = g1 b1"
    by (rule table_edgeE)
  from assms(2) obtain g2 a2 b2 where 2: "g2 \<in> syms" "(a2, b2) \<in> octant (max radius 1)" "s2 = g2 a2" "d = g2 b2"
    by (rule table_edgeE)
  note f1 = octant_form[OF 1(2)] and f2 = octant_form[OF 2(2)]
  have "b1 = canon d" using canon_sym_inv[OF 1(1), of b1] f1 1(4) by auto
  moreover have "b2 = canon d" using canon_sym_inv[OF 2(1), of b2] f2 2(4) by auto
  ultimately have b: "b1 = b2" by simp
  with 1(2) 2(2) have a: "a1 = a2" by (auto intro: octant_unique)
  have "s1 = orient d a1" unfolding 1(3,4) by (rule orient_sym[OF 1(1) f1(1,2,4,5)])
  moreover have "s2 = orient d a2" unfolding 2(3,4) by (rule orient_sym[OF 2(1) f2(1,2,4,5)])
  ultimately show ?thesis using a by simp
qed

lemma table_cover:
  assumes "1 \<le> distance p" "distance p \<le> max radius 1"
  shows "\<exists>s. (s, p) \<in> edges (computeTable radius)"
proof -
  have "\<exists>a. (a, Offset (X (canon p)) (Y (canon p))) \<in> octant (max radius 1)"
    using assms by (intro octant_cover) (auto simp: canon_def distance_alt)
  then obtain a where a: "(a, canon p) \<in> octant (max radius 1)" by auto
  obtain g where g: "g \<in> syms" "g (canon p) = p" using sym_of_canon by blast
  with a have "(g a, p) \<in> closure8 (octant (max radius 1))"
    unfolding closure8_iff by force
  then show ?thesis unfolding edges_computeTable by blast
qed

lemma table_mono: "r \<le> r' \<Longrightarrow> edges (computeTable r) \<subseteq> edges (computeTable r')"
proof -
  assume "r \<le> r'"
  then have "octant (max r 1) \<subseteq> octant (max r' 1)" by (intro octant_mono) auto
  then show ?thesis unfolding edges_computeTable closure8_def by blast
qed

lemma table_sym:
  assumes "(s, d) \<in> edges (computeTable radius)" "g \<in> syms"
  shows "(g s, g d) \<in> edges (computeTable radius)"
proof -
  from assms(1) obtain h a b where h: "h \<in> syms" "(a, b) \<in> octant (max radius 1)" "s = h a" "d = h b"
    by (rule table_edgeE)
  have "g \<circ> h \<in> syms"
    using assms(2) h(1) by (elim syms_cases) (simp_all add: syms_def sym_comp fun_eq_iff swp_def negX_def negY_def negXY_def)
  with h(2) have "((g \<circ> h) a, (g \<circ> h) b) \<in> closure8 (octant (max radius 1))"
    unfolding closure8_iff by blast
  then show ?thesis unfolding edges_computeTable h(3,4) by simp
qed

section \<open>Properties of the directional table\<close>


lemma links_iff: "links t s d \<longleftrightarrow> (s, d) \<in> edges t"
  by (simp add: links_def edges_def neighbors_of_def split: option.splits)

lemma sym_apply:
  "swp (Offset x y) = Offset y x" "negX (Offset x y) = Offset (- x) y"
  "negY (Offset x y) = Offset x (- y)" "negXY (Offset x y) = Offset (- x) (- y)"
  by (simp_all add: swp_def negX_def negY_def negXY_def)

lemma syms_members:
  "swp \<in> syms" "negX \<in> syms" "negY \<in> syms" "negXY \<in> syms"
  "negX \<circ> swp \<in> syms" "negY \<circ> swp \<in> syms" "negXY \<circ> swp \<in> syms"
  by (simp_all add: syms_def)

text \<open>
  C5.  Whenever \<open>(x, y)\<close> is a key of the table built for a radius and \<open>(dx, dy)\<close> is one
  of its destinations, the images of the key under the reflections \<open>(y, x)\<close>,
  \<open>(-x, y)\<close>, \<open>(x, -y)\<close>, \<open>(-x, -y)\<close> and under their compositions are keys too, and
  each holds the destination reflected the same way.
\<close>

theorem computeTable_symmetric:
  assumes "links (computeTable radius) (Offset x y) (Offset dx dy)"
  shows "links (computeTable radius) (Offset y x) (Offset dy dx) \<and>
         links (computeTable radius) (Offset (- x) y) (Offset (- dx) dy) \<and>
         links (computeTable radius) (Offset x (- y)) (Offset dx (- dy)) \<and>
         links (computeTable radius) (Offset (- x) (- y)) (Offset (- dx) (- dy)) \<and>
         links (computeTable radius) (Offset (- y) x) (Offset (- dy) dx) \<and>
         links (computeTable radius) (Offset y (- x)) (Offset dy (- dx)) \<and>
         links (computeTable radius) (Offset (- y) (- x)) (Offset (- dy) (- dx))"
proof -
  from assms have e: "(Offset x y, Offset dx dy) \<in> edges (computeTable radius)"
    by (simp add: links_iff)
  show ?thesis
    using table_sym[OF e syms_members(1)] table_sym[OF e syms_members(2)]
      table_sym[OF e syms_members(3)] table_sym[OF e syms_members(4)]
      table_sym[OF e syms_members(5)] table_sym[OF e syms_members(6)]
      table_sym[OF e syms_members(7)]
    by (simp add: links_iff sym_apply)
qed

theorem computeTable_symmetric_witness:
  "links (computeTable 2) (Offset 1 0) (Offset 2 1) \<and>
   links (computeTable 2) (Offset 0 1) (Offset 1 2) \<and>
   links (computeTable 2) (Offset (- 1) 0) (Offset (- 2) 1) \<and>
   links (computeTable 2) (Offset 1 0) (Offset 2 (- 1)) \<and>
   links (computeTable 2) (Offset (- 1) 0) (Offset (- 2) (- 1)) \<and>
   links (computeTable 2) (Offset 0 1) (Offset (- 1) 2) \<and>
   links (computeTable 2) (Offset 0 (- 1)) (Offset 1 (- 2)) \<and>
   links (computeTable 2) (Offset 0 (- 1)) (Offset (- 1) (- 2))"
proof -
  have h: "links (computeTable 2) (Offset 1 0) (Offset 2 1)" by code_simp
  from computeTable_symmetric[OF h] h show ?thesis by simp
qed

text \<open>
  C8.  For a radius of at least one, every key of the table and every destination of
  one of its edges lies within Chebyshev distance \<open>radius + 1\<close> of the origin.
\<close>

theorem computeTable_bounded:
  assumes "1 \<le> radius"
  shows "(k \<in> keys (computeTable radius) \<longrightarrow> distance k \<le> radius + 1) \<and>
         (links (computeTable radius) s d \<longrightarrow> distance d \<le> radius + 1)"
proof (intro conjI impI)
  assume "k \<in> keys (computeTable radius)"
  then obtain d' where "(k, d') \<in> edges (computeTable radius)"
    unfolding keys_computeTable by force
  from table_ring(3)[OF this] assms show "distance k \<le> radius + 1" by simp
next
  assume "links (computeTable radius) s d"
  then have "(s, d) \<in> edges (computeTable radius)" by (simp add: links_iff)
  from table_ring[OF this] assms show "distance d \<le> radius + 1" by simp
qed

theorem computeTable_bounded_witness:
  "(1::int) \<le> 2 \<and> Offset 1 1 \<in> keys (computeTable 2) \<and> distance (Offset 1 1) \<le> 2 + 1 \<and>
   links (computeTable 2) (Offset 1 0) (Offset 2 1) \<and> distance (Offset 2 1) \<le> 2 + 1"
proof -
  have r: "(1::int) \<le> 2" by simp
  have k: "Offset 1 1 \<in> keys (computeTable 2)" by code_simp
  have l: "links (computeTable 2) (Offset 1 0) (Offset 2 1)" by code_simp
  from computeTable_bounded[OF r, of "Offset 1 1" "Offset 1 0" "Offset 2 1"] r k l
  show ?thesis by simp
qed

section \<open>The reverse table and Trace\<close>

subsection \<open>Caches\<close>

lemma caches_ok_empty: "caches_ok no_caches"
  by (simp add: caches_ok_def no_caches_def)

lemma cachedTable_ok:
  assumes "caches_ok c" "cachedTable c radius = (t, c')"
  shows "t = computeTable radius" "caches_ok c'"
  using assms by (auto simp: cachedTable_def caches_ok_def Let_def split: option.splits if_splits)

lemma computeReverseTable_ok:
  assumes "caches_ok c" "computeReverseTable c radius = (t, c')"
  shows "t = reverse_of (computeTable radius)" "caches_ok c'"
  using assms cachedTable_ok[of c radius]
  by (auto simp: computeReverseTable_def split: prod.splits)

lemma getReverseTable_ok:
  assumes "caches_ok c" "getReverseTable c p = (t, c')"
  shows "t = reverse_of (computeTable (Chebyshev p))" "caches_ok c'"
proof -
  show "t = reverse_of (computeTable (Chebyshev p))"
  proof (cases "reverseTableCache c (Chebyshev p)")
    case None
    with assms computeReverseTable_ok(1)[OF assms(1), of "Chebyshev p"] show ?thesis
      by (auto simp: getReverseTable_def Let_def split: prod.splits)
  next
    case (Some a)
    with assms show ?thesis by (auto simp: getReverseTable_def Let_def caches_ok_def)
  qed
  show "caches_ok c'"
  proof (cases "reverseTableCache c (Chebyshev p)")
    case None
    obtain t0 c0 where r: "computeReverseTable c (Chebyshev p) = (t0, c0)" by force
    from computeReverseTable_ok[OF assms(1) r] None assms(2) r show ?thesis
      by (auto simp: getReverseTable_def Let_def caches_ok_def split: if_splits)
  next
    case (Some a)
    with assms show ?thesis by (auto simp: getReverseTable_def Let_def)
  qed
qed

subsection \<open>The reverse table\<close>

lemma inner_fold_rev:
  "fold (\<lambda>edge reverse. reverse(edge \<mapsto> pos)) es m d =
     (if d \<in> set es then Some pos else m d)"
  by (induction es arbitrary: m) auto

lemma outer_fold_rev_Some:
  "fold (\<lambda>(pos, edges) reverse. fold (\<lambda>edge reverse. reverse(edge \<mapsto> pos)) edges reverse) t m d = Some s
   \<Longrightarrow> m d = Some s \<or> (s, d) \<in> listed t"
proof (induction t arbitrary: m)
  case Nil
  then show ?case by simp
next
  case (Cons a t)
  obtain pos es where a: "a = (pos, es)" by (cases a)
  define m' where "m' = fold (\<lambda>edge reverse. reverse(edge \<mapsto> pos)) es m"
  have m': "m' d = (if d \<in> set es then Some pos else m d)"
    unfolding m'_def by (rule inner_fold_rev)
  have "fold (\<lambda>(pos, edges) reverse. fold (\<lambda>edge reverse. reverse(edge \<mapsto> pos)) edges reverse) t m' d = Some s"
    using Cons.prems unfolding a m'_def by (simp only: fold.simps comp_apply prod.case)
  from Cons.IH[of m', OF this] have "m' d = Some s \<or> (s, d) \<in> listed t" .
  moreover have "listed t \<subseteq> listed (a # t)" by (auto simp: listed_def)
  moreover have "(pos, d) \<in> listed (a # t)" if "d \<in> set es"
    using that by (auto simp: listed_def a)
  ultimately show ?case unfolding m' by (auto split: if_splits)
qed

lemma outer_fold_rev_dom:
  "m d \<noteq> None \<or> (\<exists>s. (s, d) \<in> listed t) \<Longrightarrow>
   fold (\<lambda>(pos, edges) reverse. fold (\<lambda>edge reverse. reverse(edge \<mapsto> pos)) edges reverse) t m d \<noteq> None"
proof (induction t arbitrary: m)
  case Nil
  then show ?case by (simp add: listed_def)
next
  case (Cons a t)
  obtain pos es where a: "a = (pos, es)" by (cases a)
  define m' where "m' = fold (\<lambda>edge reverse. reverse(edge \<mapsto> pos)) es m"
  have m': "m' d = (if d \<in> set es then Some pos else m d)"
    unfolding m'_def by (rule inner_fold_rev)
  have "m' d \<noteq> None \<or> (\<exists>s. (s, d) \<in> listed t)"
    using Cons.prems unfolding m' by (auto simp: a listed_def)
  from Cons.IH[of m', OF this] show ?case
    unfolding a m'_def by (simp only: fold.simps comp_apply prod.case not_False_eq_True)
qed

lemma listed_edges: "distinct (map fst t) \<Longrightarrow> listed t = edges t"
  by (auto simp: listed_def edges_def neighbors_of_def split: option.splits
      dest: map_of_SomeD intro: map_of_is_SomeI)

lemma distinct_addEntry: "distinct (map fst t) \<Longrightarrow> distinct (map fst (addEntry t s d))"
  by (simp add: addEntry_def distinct_update)

lemma distinct_computeTable: "distinct (map fst (computeTable radius))"
  by (rule computeTable_inv[where P = "\<lambda>t. distinct (map fst t)"]) (simp_all add: distinct_addEntry)

lemma reverse_of_computeTable:
  "reverse_of (computeTable radius) d = Some s \<longleftrightarrow> (s, d) \<in> edges (computeTable radius)"
proof
  assume "reverse_of (computeTable radius) d = Some s"
  from outer_fold_rev_Some[OF this[unfolded reverse_of_def]]
  show "(s, d) \<in> edges (computeTable radius)"
    by (simp add: listed_edges[OF distinct_computeTable])
next
  assume e: "(s, d) \<in> edges (computeTable radius)"
  then have "reverse_of (computeTable radius) d \<noteq> None"
    unfolding reverse_of_def
    by (intro outer_fold_rev_dom) (auto simp: listed_edges[OF distinct_computeTable])
  then obtain s' where s': "reverse_of (computeTable radius) d = Some s'" by auto
  from outer_fold_rev_Some[OF this[unfolded reverse_of_def]]
  have "(s', d) \<in> edges (computeTable radius)"
    by (simp add: listed_edges[OF distinct_computeTable])
  with e have "s' = s" using table_unique_pred by blast
  with s' show "reverse_of (computeTable radius) d = Some s" by simp
qed

lemma distance_zero_iff: "distance p = 0 \<longleftrightarrow> p = Offset 0 0"
  by (cases p) (auto simp: distance_alt)

lemma distance_nonneg: "0 \<le> distance p"
  by (simp add: distance_alt)

lemma pred_of_step:
  assumes "p \<noteq> Offset 0 0"
  shows "distance (pred_of (reverse_of (computeTable radius)) p) < distance p"
proof (cases "reverse_of (computeTable radius) p")
  case None
  then have "pred_of (reverse_of (computeTable radius)) p = Offset 0 0" by (simp add: pred_of_def)
  with assms distance_zero_iff[of p] distance_nonneg[of p] show ?thesis
    by (simp add: distance_alt)
next
  case (Some s)
  then have "(s, p) \<in> edges (computeTable radius)" by (simp add: reverse_of_computeTable)
  from table_ring(1)[OF this] Some show ?thesis by (simp add: pred_of_def)
qed

lemma pred_of_key:
  assumes "reverse_of (computeTable radius) p \<noteq> None"
  shows "distance (pred_of (reverse_of (computeTable radius)) p) = distance p - 1"
    "1 \<le> distance p" "distance p \<le> max radius 1"
    "(pred_of (reverse_of (computeTable radius)) p, p) \<in> edges (computeTable radius)"
proof -
  from assms obtain s where s: "reverse_of (computeTable radius) p = Some s" by auto
  then have e: "(s, p) \<in> edges (computeTable radius)" by (simp add: reverse_of_computeTable)
  from table_ring[OF e] s e
  show "distance (pred_of (reverse_of (computeTable radius)) p) = distance p - 1"
    "1 \<le> distance p" "distance p \<le> max radius 1"
    "(pred_of (reverse_of (computeTable radius)) p, p) \<in> edges (computeTable radius)"
    by (simp_all add: pred_of_def)
qed

lemma reverse_key_iff:
  "reverse_of (computeTable radius) p \<noteq> None \<longleftrightarrow> 1 \<le> distance p \<and> distance p \<le> max radius 1"
proof
  assume "reverse_of (computeTable radius) p \<noteq> None"
  from pred_of_key(2,3)[OF this] show "1 \<le> distance p \<and> distance p \<le> max radius 1" by simp
next
  assume "1 \<le> distance p \<and> distance p \<le> max radius 1"
  then obtain s where "(s, p) \<in> edges (computeTable radius)" using table_cover by blast
  then show "reverse_of (computeTable radius) p \<noteq> None"
    using reverse_of_computeTable[of radius p s] by simp
qed

subsection \<open>The loop of Trace\<close>

lemma trace_loop_total:
  "\<exists>ps. trace_loop (reverse_of (computeTable radius)) goal path = Some (path @ ps) \<and>
        Offset 0 0 \<notin> set ps \<and>
        (goal \<noteq> Offset 0 0 \<longrightarrow> ps \<noteq> [] \<and> hd ps = goal) \<and>
        (goal = Offset 0 0 \<longrightarrow> ps = []) \<and>
        int (length ps) \<le> distance goal"
proof (induction "nat (distance goal)" arbitrary: goal path rule: less_induct)
  case less
  let ?rt = "reverse_of (computeTable radius)"
  show ?case
  proof (cases "goal = Offset 0 0")
    case True
    then have "trace_loop ?rt goal path = Some path"
      by (subst trace_loop.simps) simp
    with True show ?thesis by (simp add: distance_alt)
  next
    case False
    have lt: "distance (pred_of ?rt goal) < distance goal" by (rule pred_of_step[OF False])
    then have "nat (distance (pred_of ?rt goal)) < nat (distance goal)"
      using distance_nonneg[of "pred_of ?rt goal"] by simp
    from less[OF this, of "path @ [goal]"] obtain ps where ps:
      "trace_loop ?rt (pred_of ?rt goal) (path @ [goal]) = Some ((path @ [goal]) @ ps)"
      "Offset 0 0 \<notin> set ps" "int (length ps) \<le> distance (pred_of ?rt goal)"
      by blast
    have nz: "X goal \<noteq> 0 \<or> Y goal \<noteq> 0" using False by (cases goal) auto
    have "trace_loop ?rt goal path = trace_loop ?rt (pred_of ?rt goal) (path @ [goal])"
      by (subst trace_loop.simps) (simp only: nz if_True)
    with ps lt False show ?thesis
      by (intro exI[of _ "goal # ps"]) auto
  qed
qed

lemma pred_of_origin: "pred_of (reverse_of (computeTable radius)) (Offset 0 0) = Offset 0 0"
proof -
  have "reverse_of (computeTable radius) (Offset 0 0) = None"
    using reverse_key_iff[of radius "Offset 0 0"] by (simp add: distance_alt)
  then show ?thesis by (simp add: pred_of_def)
qed

lemma funpow_origin: "(pred_of (reverse_of (computeTable radius)) ^^ m) (Offset 0 0) = Offset 0 0"
  by (induction m) (simp_all add: pred_of_origin)

lemma chain_rings:
  assumes key: "reverse_of (computeTable radius) p \<noteq> None"
  shows "m \<le> nat (distance p) \<Longrightarrow>
         distance ((pred_of (reverse_of (computeTable radius)) ^^ m) p) = distance p - int m \<and>
         (m < nat (distance p) \<longrightarrow>
            reverse_of (computeTable radius) ((pred_of (reverse_of (computeTable radius)) ^^ m) p) \<noteq> None)"
proof (induction m)
  case 0
  with key show ?case by simp
next
  case (Suc m)
  let ?f = "pred_of (reverse_of (computeTable radius))"
  from Suc have IH: "distance ((?f ^^ m) p) = distance p - int m"
    "reverse_of (computeTable radius) ((?f ^^ m) p) \<noteq> None" by simp_all
  from pred_of_key(1)[OF IH(2)] IH(1)
  have c: "distance ((?f ^^ Suc m) p) = distance p - int (Suc m)" by simp
  moreover have "reverse_of (computeTable radius) ((?f ^^ Suc m) p) \<noteq> None"
    if "Suc m < nat (distance p)"
  proof -
    have "int (Suc m) < distance p" using that by linarith
    with pred_of_key(3)[OF key] c
    have "1 \<le> distance ((?f ^^ Suc m) p) \<and> distance ((?f ^^ Suc m) p) \<le> max radius 1"
      by linarith
    then show ?thesis by (simp only: reverse_key_iff)
  qed
  ultimately show ?case by blast
qed

lemma chain_to_origin:
  assumes key: "reverse_of (computeTable radius) p \<noteq> None"
  defines "f \<equiv> pred_of (reverse_of (computeTable radius))"
  defines "n \<equiv> nat (distance p)"
  shows "1 \<le> n" "int n \<le> max radius 1" "(f ^^ n) p = Offset 0 0"
    "m < n \<Longrightarrow> (f ^^ m) p \<noteq> Offset 0 0 \<and> reverse_of (computeTable radius) ((f ^^ m) p) \<noteq> None"
    "0 < m \<Longrightarrow> (f ^^ m) p \<noteq> p"
proof -
  note k = pred_of_key(2,3)[OF key]
  show "1 \<le> n" "int n \<le> max radius 1" using k by (simp_all add: n_def)
  have "distance ((f ^^ n) p) = 0"
    using chain_rings[OF key, of n] k by (simp add: f_def n_def)
  then show z: "(f ^^ n) p = Offset 0 0" by (simp add: distance_zero_iff)
  show "(f ^^ m) p \<noteq> Offset 0 0 \<and> reverse_of (computeTable radius) ((f ^^ m) p) \<noteq> None" if "m < n"
  proof -
    from chain_rings[OF key, of m] that
    have c: "distance ((f ^^ m) p) = distance p - int m"
      "reverse_of (computeTable radius) ((f ^^ m) p) \<noteq> None"
      by (simp_all add: f_def n_def)
    from c(1) that have "distance ((f ^^ m) p) \<noteq> 0" by (simp add: n_def)
    with c(2) show ?thesis by (simp add: distance_zero_iff)
  qed
  show "(f ^^ m) p \<noteq> p" if "0 < m"
  proof (cases "m \<le> n")
    case True
    from chain_rings[OF key, of m] True that
    have "distance ((f ^^ m) p) \<noteq> distance p" by (simp add: f_def n_def)
    then show ?thesis by auto
  next
    case False
    then have "m = (m - n) + n" by simp
    then have "(f ^^ m) p = (f ^^ (m - n)) ((f ^^ n) p)" by (metis funpow_add comp_apply)
    then have "(f ^^ m) p = Offset 0 0" by (simp only: z) (simp add: f_def funpow_origin)
    moreover have "p \<noteq> Offset 0 0" using k by (auto simp: distance_alt)
    ultimately show ?thesis by simp
  qed
qed

text \<open>
  C7.  \<^verbatim>\<open>Trace\<close> returns for every goal; the returned sequence never contains the origin
  offset; for a goal other than the origin its last element is the goal; for the origin
  it is empty.
\<close>

theorem Trace_endpoints:
  assumes "caches_ok c"
  shows "\<exists>path c'. Trace c goal = Some (path, c') \<and> Offset 0 0 \<notin> set path \<and>
           (goal \<noteq> Offset 0 0 \<longrightarrow> path \<noteq> [] \<and> last path = goal) \<and>
           (goal = Offset 0 0 \<longrightarrow> path = [])"
proof -
  obtain t c' where g: "getReverseTable c goal = (t, c')" by force
  from getReverseTable_ok(1)[OF assms g]
  have t: "t = reverse_of (computeTable (Chebyshev goal))" .
  from trace_loop_total[of "Chebyshev goal" goal "[]"] obtain ps where ps:
    "trace_loop t goal [] = Some ps" "Offset 0 0 \<notin> set ps"
    "goal \<noteq> Offset 0 0 \<longrightarrow> ps \<noteq> [] \<and> hd ps = goal" "goal = Offset 0 0 \<longrightarrow> ps = []"
    unfolding t by auto
  have "Trace c goal = Some (rev ps, c')" by (simp add: Trace_def g ps(1))
  with ps(2,3,4) show ?thesis by (auto simp: last_rev)
qed

theorem Trace_endpoints_witness:
  "caches_ok no_caches \<and>
   map_option fst (Trace no_caches (Offset 2 1)) = Some [Offset 1 0, Offset 2 1] \<and>
   (\<exists>path c'. Trace no_caches (Offset 2 1) = Some (path, c') \<and> Offset 0 0 \<notin> set path \<and>
      last path = Offset 2 1)"
proof -
  have v: "map_option fst (Trace no_caches (Offset 2 1)) = Some [Offset 1 0, Offset 2 1]"
    by code_simp
  from Trace_endpoints[OF caches_ok_empty, of "Offset 2 1"] v caches_ok_empty
  show ?thesis by auto
qed

text \<open>
  C4.  For a radius of at least one and an offset other than the origin that is a key of
  the reverse table of that radius: following predecessors reaches the origin after
  \<open>n\<close> steps for some \<open>n\<close> between one and the radius, every offset met before is a key
  of the reverse table and is not the origin, no positive number of steps leads back
  to the offset, every source that the forward table links to the offset is its recorded
  predecessor, and the lookup loop of \<^verbatim>\<open>Trace\<close> returns from the offset with at most
  radius many entries.
\<close>

theorem reverse_chain_terminates:
  assumes "caches_ok c" "1 \<le> radius" "reverse_key c radius p" "p \<noteq> Offset 0 0"
  shows "\<exists>n. 1 \<le> n \<and> int n \<le> radius \<and>
           (predecessor c radius ^^ n) p = Offset 0 0 \<and>
           (\<forall>m<n. (predecessor c radius ^^ m) p \<noteq> Offset 0 0 \<and>
                   reverse_key c radius ((predecessor c radius ^^ m) p)) \<and>
           (\<forall>m>0. (predecessor c radius ^^ m) p \<noteq> p) \<and>
           (\<forall>s. links (computeTable radius) s p \<longrightarrow>
                 fst (computeReverseTable c radius) p = Some s) \<and>
           (\<exists>path. trace_loop (fst (computeReverseTable c radius)) p [] = Some path \<and>
                   int (length path) \<le> radius)"
proof -
  obtain t c' where g: "computeReverseTable c radius = (t, c')" by force
  from computeReverseTable_ok(1)[OF assms(1) g]
  have t: "fst (computeReverseTable c radius) = reverse_of (computeTable radius)"
    by (simp add: g)
  have f: "predecessor c radius = pred_of (reverse_of (computeTable radius))"
    by (simp add: fun_eq_iff predecessor_def t)
  have k: "reverse_key c radius q \<longleftrightarrow> reverse_of (computeTable radius) q \<noteq> None" for q
    by (simp add: reverse_key_def t)
  from assms(3) have key: "reverse_of (computeTable radius) p \<noteq> None" by (simp add: k)
  note ch = chain_to_origin[OF key]
  from trace_loop_total[of radius p "[]"] obtain ps where
    ps: "trace_loop (reverse_of (computeTable radius)) p [] = Some ps"
      "int (length ps) \<le> distance p" by auto
  have len: "int (length ps) \<le> radius" using ps(2) pred_of_key(3)[OF key] assms(2) by simp
  have uniq: "reverse_of (computeTable radius) p = Some s" if "links (computeTable radius) s p" for s
    using that by (simp add: reverse_of_computeTable links_iff)
  show ?thesis
  proof (intro exI[of _ "nat (distance p)"] conjI allI impI)
    show "1 \<le> nat (distance p)" by (rule ch(1))
    show "int (nat (distance p)) \<le> radius" using ch(2) assms(2) by simp
    show "(predecessor c radius ^^ nat (distance p)) p = Offset 0 0"
      unfolding f by (rule ch(3))
    show "(predecessor c radius ^^ m) p \<noteq> Offset 0 0" if "m < nat (distance p)" for m
      unfolding f using ch(4)[OF that] by simp
    show "reverse_key c radius ((predecessor c radius ^^ m) p)" if "m < nat (distance p)" for m
      unfolding f k using ch(4)[OF that] by simp
    show "(predecessor c radius ^^ m) p \<noteq> p" if "0 < m" for m
      unfolding f by (rule ch(5)[OF that])
    show "fst (computeReverseTable c radius) p = Some s" if "links (computeTable radius) s p" for s
      unfolding t by (rule uniq[OF that])
    show "\<exists>path. trace_loop (fst (computeReverseTable c radius)) p [] = Some path \<and>
            int (length path) \<le> radius"
      unfolding t using ps(1) len by blast
  qed
qed

theorem reverse_chain_terminates_witness:
  "caches_ok no_caches \<and> (1::int) \<le> 2 \<and> reverse_key no_caches 2 (Offset 2 1) \<and>
   Offset 2 1 \<noteq> Offset 0 0 \<and>
   predecessor no_caches 2 (Offset 2 1) = Offset 1 0 \<and>
   predecessor no_caches 2 (Offset 1 0) = Offset 0 0 \<and>
   (\<exists>n. 1 \<le> n \<and> int n \<le> 2 \<and>
      (predecessor no_caches 2 ^^ n) (Offset 2 1) = Offset 0 0 \<and>
      (\<forall>m>0. (predecessor no_caches 2 ^^ m) (Offset 2 1) \<noteq> Offset 2 1))"
proof -
  have r: "(1::int) \<le> 2" by simp
  have k: "reverse_key no_caches 2 (Offset 2 1)" by code_simp
  have n: "Offset 2 1 \<noteq> Offset 0 0" by simp
  have p1: "predecessor no_caches 2 (Offset 2 1) = Offset 1 0" by code_simp
  have p2: "predecessor no_caches 2 (Offset 1 0) = Offset 0 0" by code_simp
  from reverse_chain_terminates[OF caches_ok_empty r k n] caches_ok_empty k p1 p2
  show ?thesis by auto
qed

section \<open>The flood of FoV\<close>

subsection \<open>One round of the flood\<close>

lemma visit_nil: "visit h None off adjs fov stack = (if adjs = [] then Inr (fov, stack) else Inl NilDereference)"
  by (cases adjs) simp_all

lemma visit_Inr:
  "visit h (Some t) off adjs fov stack = Inr (fov', stack') \<longleftrightarrow>
     (\<forall>d\<in>set adjs. neighbor_at h t off d \<noteq> None) \<and>
     fov' = (\<lambda>p. if p \<in> set adjs then Some (neighbor_at h t off p) else fov p) \<and>
     stack' = rev (filter (\<lambda>d. lit h (neighbor_at h t off d)) adjs) @ stack"
proof (induction adjs arbitrary: fov stack)
  case Nil
  then show ?case by auto
next
  case (Cons a adjs)
  show ?case
  proof (cases "neighbor_at h t off a")
    case None
    then show ?thesis by (auto simp: neighbor_at_def)
  next
    case (Some n)
    have upd: "(\<lambda>p. if p \<in> set adjs then Some (neighbor_at h t off p) else (fov(a \<mapsto> Some n)) p) =
          (\<lambda>p. if p \<in> set (a # adjs) then Some (neighbor_at h t off p) else fov p)"
      using Some by (auto simp: fun_eq_iff)
    from Some have n: "Adjacent (h t) (Sub a off) = Some n" by (simp add: neighbor_at_def)
    let ?P = "\<lambda>d. lit h (neighbor_at h t off d)"
    have r: "rev (filter ?P adjs) @ (if Lite (h n) then a # stack else stack) =
        rev (filter ?P (a # adjs)) @ stack"
      by (simp add: Some lit_def)
    have all: "(\<forall>d\<in>set adjs. neighbor_at h t off d \<noteq> None) \<longleftrightarrow>
        (\<forall>d\<in>set (a # adjs). neighbor_at h t off d \<noteq> None)"
      by (simp add: Some)
    have step: "visit h (Some t) off (a # adjs) fov stack =
        visit h (Some t) off adjs (fov(a \<mapsto> Some n)) (if Lite (h n) then a # stack else stack)"
      by (simp add: n Let_def)
    show ?thesis
      unfolding step Cons.IH upd r all ..
  qed
qed

lemma visit_total:
  "visit h (Some t) off adjs fov stack = Inl NilDereference \<longleftrightarrow>
     (\<exists>d\<in>set adjs. neighbor_at h t off d = None)"
proof -
  have "(\<exists>e. visit h (Some t) off adjs fov stack = Inl e) \<longleftrightarrow> (\<exists>d\<in>set adjs. neighbor_at h t off d = None)"
    using visit_Inr[of h t off adjs fov stack]
    by (cases "visit h (Some t) off adjs fov stack") auto
  moreover have "(\<exists>e. visit h (Some t) off adjs fov stack = Inl e) \<longleftrightarrow>
      visit h (Some t) off adjs fov stack = Inl NilDereference"
    by (metis error.exhaust)
  ultimately show ?thesis by simp
qed

subsection \<open>A rule for the flood loop\<close>

lemma flood_rule:
  assumes wf: "wf R"
    and inv: "I fov stack"
    and step: "\<And>fov off rest fov' stack'. I fov (off # rest) \<Longrightarrow>
        visit h (tile_at fov off) off (neighbors_of table off) fov rest = Inr (fov', stack') \<Longrightarrow>
        I fov' stack' \<and> (stack', off # rest) \<in> R"
  shows "\<exists>res. flood table h fov stack = Some res \<and> (\<forall>F. res = Inr F \<longrightarrow> I F [])"
  using wf inv
proof (induction stack arbitrary: fov rule: wf_induct_rule)
  case (less stack)
  show ?case
  proof (cases stack)
    case Nil
    with less.prems show ?thesis by (subst flood.simps) simp
  next
    case (Cons off rest)
    show ?thesis
    proof (cases "visit h (tile_at fov off) off (neighbors_of table off) fov rest")
      case (Inl e)
      with Cons show ?thesis by (subst flood.simps) simp
    next
      case (Inr p)
      obtain fov' stack' where p: "p = (fov', stack')" by (cases p)
      from step[OF less.prems[unfolded Cons] Inr[unfolded p]]
      have "I fov' stack'" "(stack', stack) \<in> R" by (simp_all add: Cons)
      from less.IH[OF this(2,1)] obtain res where
        "flood table h fov' stack' = Some res" "\<forall>F. res = Inr F \<longrightarrow> I F []" by blast
      with Cons Inr p show ?thesis by (subst flood.simps) simp
    qed
  qed
qed

subsection \<open>The flood on a computed table\<close>

lemma wf_flood_order: "wf (flood_order radius)"
  unfolding flood_order_def by (intro wf_inv_image wf_mult wf_less_than)

lemma set_neighbors_of: "set (neighbors_of t s) = {d. (s, d) \<in> edges t}"
  by (simp add: edges_def)

lemma distinct_set_insert: "distinct ns \<Longrightarrow> distinct (set_insert d ns)"
  by (simp add: set_insert_def)

lemma distinct_neighbors: "distinct (neighbors_of (computeTable radius) s)"
proof -
  have "\<forall>s. distinct (neighbors_of (computeTable radius) s)"
    by (rule computeTable_inv[where P = "\<lambda>t. \<forall>s. distinct (neighbors_of t s)"])
      (simp_all add: neighbors_of_addEntry distinct_set_insert, simp add: neighbors_of_def)
  then show ?thesis by simp
qed

lemma table_no_origin: "(s, d) \<in> edges (computeTable radius) \<Longrightarrow> d \<noteq> Offset 0 0"
  using table_ring(1,2)[of s d radius] by (auto simp: distance_alt)

lemma table_irrefl: "(s, s) \<notin> edges (computeTable radius)"
  using table_ring(1)[of s s radius] by auto

lemma flood_order_step:
  assumes "set pushed \<subseteq> {d. (s, d) \<in> edges (computeTable radius)}"
  shows "(pushed @ rest, s # rest) \<in> flood_order radius"
proof -
  have "(mset (map (height radius) rest) + mset (map (height radius) pushed),
         mset (map (height radius) rest) + {#height radius s#}) \<in> mult less_than"
  proof (rule one_step_implies_mult)
    show "{#height radius s#} \<noteq> {#}" by simp
    show "\<forall>k\<in>set_mset (mset (map (height radius) pushed)).
            \<exists>j\<in>set_mset {#height radius s#}. (k, j) \<in> less_than"
    proof
      fix k assume "k \<in> set_mset (mset (map (height radius) pushed))"
      then obtain d where d: "d \<in> set pushed" "k = height radius d" by auto
      with assms have "(s, d) \<in> edges (computeTable radius)" by auto
      from table_ring[OF this] have "height radius d < height radius s"
        by (simp add: height_def)
      with d show "\<exists>j\<in>set_mset {#height radius s#}. (k, j) \<in> less_than" by simp
    qed
  qed
  then show ?thesis by (simp add: flood_order_def add.commute)
qed

lemma flood_inv_step:
  fixes radius
  defines "T \<equiv> computeTable radius"
  assumes inv: "flood_inv T h origin fov (s # rest)"
    and v: "visit h (tile_at fov s) s (neighbors_of T s) fov rest = Inr (fov', stack')"
  shows "flood_inv T h origin fov' stack' \<and> (stack', s # rest) \<in> flood_order radius"
proof -
  let ?E = "edges T"
  note i = inv[unfolded flood_inv_def]
  have i0: "fov (Offset 0 0) = Some origin" by (rule i[THEN conjunct1])
  have i1: "distinct (s # rest)" by (rule i[THEN conjunct2, THEN conjunct1])
  have i2: "\<exists>s' ts. (s', d) \<in> ?E \<and> s' \<notin> set (s # rest) \<and> fov s' = Some (Some ts) \<and>
           (s' = Offset 0 0 \<or> Lite (h ts)) \<and> Adjacent (h ts) (Sub d s') \<noteq> None \<and>
           fov d = Some (Adjacent (h ts) (Sub d s'))"
    if "d \<noteq> Offset 0 0" "fov d \<noteq> None" for d
    using i[THEN conjunct2, THEN conjunct2, THEN conjunct1, rule_format, OF that] .
  have i3: "(\<exists>ts. fov q = Some (Some ts) \<and> (q = Offset 0 0 \<or> Lite (h ts))) \<and>
        (\<forall>d. (q, d) \<in> ?E \<longrightarrow> fov d = None)" if "q \<in> set (s # rest)" for q
    using i[THEN conjunct2, THEN conjunct2, THEN conjunct2, THEN conjunct1, rule_format, OF that] .
  have i4: "fov d \<noteq> None"
    if "fov q = Some (Some ts)" "q = Offset 0 0 \<or> Lite (h ts)" "(q, d) \<in> ?E" "q \<notin> set (s # rest)"
    for q ts d
    using i[THEN conjunct2, THEN conjunct2, THEN conjunct2, THEN conjunct2, rule_format, OF that] .
  from i3[of s] obtain ts where ts: "fov s = Some (Some ts)" "s = Offset 0 0 \<or> Lite (h ts)"
    and fresh: "\<And>d. (s, d) \<in> ?E \<Longrightarrow> fov d = None" by auto
  have uniq: "\<And>a b d. (a, d) \<in> ?E \<Longrightarrow> (b, d) \<in> ?E \<Longrightarrow> a = b"
    unfolding T_def by (rule table_unique_pred)
  have no0: "\<And>a d. (a, d) \<in> ?E \<Longrightarrow> d \<noteq> Offset 0 0"
    unfolding T_def by (rule table_no_origin)
  have irr: "\<And>a. (a, a) \<notin> ?E" unfolding T_def by (rule table_irrefl)
  from v ts(1) have v': "visit h (Some ts) s (neighbors_of T s) fov rest = Inr (fov', stack')"
    by (simp add: tile_at_def)
  note vi = v'[unfolded visit_Inr]
  have nn: "neighbor_at h ts s d \<noteq> None" if "(s, d) \<in> ?E" for d
    using vi[THEN conjunct1] that by (simp add: set_neighbors_of)
  have fov': "fov' = (\<lambda>p. if (s, p) \<in> ?E then Some (neighbor_at h ts s p) else fov p)"
    using vi[THEN conjunct2, THEN conjunct1] by (simp add: set_neighbors_of)
  have stack': "stack' = rev (filter (\<lambda>d. lit h (neighbor_at h ts s d)) (neighbors_of T s)) @ rest"
    by (rule vi[THEN conjunct2, THEN conjunct2])
  have new: "\<And>p. (s, p) \<in> ?E \<Longrightarrow> fov' p = Some (neighbor_at h ts s p)"
    and old: "\<And>p. (s, p) \<notin> ?E \<Longrightarrow> fov' p = fov p"
    by (simp_all add: fov')
  have keep: "fov' p = fov p" if "fov p \<noteq> None" for p
  proof -
    from that fresh[of p] have "(s, p) \<notin> ?E" by auto
    then show ?thesis by (rule old)
  qed
  have in_stack': "\<And>p. p \<in> set stack' \<longleftrightarrow>
      ((s, p) \<in> ?E \<and> lit h (neighbor_at h ts s p)) \<or> p \<in> set rest"
    by (auto simp: stack' set_neighbors_of)
  have rest_dom: "\<And>q. q \<in> set rest \<Longrightarrow> fov q \<noteq> None" using i3 by fastforce
  have s_rest: "s \<notin> set rest" using i1 by simp
  have c0: "fov' (Offset 0 0) = Some origin" using keep[of "Offset 0 0"] i0 by simp
  have c1: "distinct stack'"
  proof -
    have "distinct (neighbors_of T s)" unfolding T_def by (rule distinct_neighbors)
    moreover have "distinct rest" using i1 by simp
    moreover have "set (neighbors_of T s) \<inter> set rest = {}"
    proof -
      have "False" if "(s, x) \<in> ?E" "x \<in> set rest" for x
        using fresh[OF that(1)] rest_dom[OF that(2)] by simp
      then show ?thesis by (auto simp: set_neighbors_of)
    qed
    ultimately show ?thesis by (auto simp: stack')
  qed
  have c2: "\<exists>s' ts'. (s', d) \<in> ?E \<and> s' \<notin> set stack' \<and> fov' s' = Some (Some ts') \<and>
           (s' = Offset 0 0 \<or> Lite (h ts')) \<and> Adjacent (h ts') (Sub d s') \<noteq> None \<and>
           fov' d = Some (Adjacent (h ts') (Sub d s'))"
    if d: "d \<noteq> Offset 0 0" "fov' d \<noteq> None" for d
  proof (cases "(s, d) \<in> ?E")
    case True
    have "s \<notin> set stack'" using in_stack'[of s] irr s_rest by simp
    moreover have "fov' s = Some (Some ts)" using keep[of s] ts(1) by simp
    moreover have "Adjacent (h ts) (Sub d s) \<noteq> None" using nn[OF True] by (simp add: neighbor_at_def)
    moreover have "fov' d = Some (Adjacent (h ts) (Sub d s))" using new[OF True] by (simp add: neighbor_at_def)
    ultimately show ?thesis using True ts(2) by blast
  next
    case False
    then have fd: "fov' d = fov d" by (rule old)
    with d have "fov d \<noteq> None" by simp
    from i2[OF d(1) this] obtain s' ts' where s':
      "(s', d) \<in> ?E" "s' \<notin> set (s # rest)" "fov s' = Some (Some ts')"
      "s' = Offset 0 0 \<or> Lite (h ts')" "Adjacent (h ts') (Sub d s') \<noteq> None"
      "fov d = Some (Adjacent (h ts') (Sub d s'))" by blast
    have "(s, s') \<notin> ?E" using fresh[of s'] s'(3) by auto
    then have "s' \<notin> set stack'" using in_stack'[of s'] s'(2) by simp
    moreover have "fov' s' = Some (Some ts')" using keep[of s'] s'(3) by simp
    ultimately show ?thesis using s' fd by auto
  qed
  have c3: "(\<exists>ts'. fov' q = Some (Some ts') \<and> (q = Offset 0 0 \<or> Lite (h ts'))) \<and>
        (\<forall>d. (q, d) \<in> ?E \<longrightarrow> fov' d = None)" if q: "q \<in> set stack'" for q
  proof (cases "q \<in> set rest")
    case True
    from i3[of q] True obtain tq where tq: "fov q = Some (Some tq)" "q = Offset 0 0 \<or> Lite (h tq)"
      and fq: "\<And>d. (q, d) \<in> ?E \<Longrightarrow> fov d = None" by auto
    have "fov' q = Some (Some tq)" using keep[of q] tq(1) by simp
    moreover have "fov' d = None" if qd: "(q, d) \<in> ?E" for d
    proof -
      have "(s, d) \<notin> ?E" using uniq[OF qd] True s_rest by auto
      then show ?thesis using old fq[OF qd] by simp
    qed
    ultimately show ?thesis using tq(2) by blast
  next
    case False
    with q in_stack'[of q] have sq: "(s, q) \<in> ?E" and lq: "lit h (neighbor_at h ts s q)" by auto
    from lq obtain n where n: "neighbor_at h ts s q = Some n" "Lite (h n)"
      by (auto simp: lit_def split: option.splits)
    have "fov' q = Some (Some n)" using new[OF sq] n by simp
    moreover have "fov' d = None" if qd: "(q, d) \<in> ?E" for d
    proof -
      have nsd: "(s, d) \<notin> ?E" using uniq[OF qd, of s] sq irr by auto
      have "fov d = None"
      proof (rule ccontr)
        assume a: "fov d \<noteq> None"
        from i2[OF no0[OF qd] a] obtain s' ts' where "(s', d) \<in> ?E" "fov s' = Some (Some ts')" by blast
        with uniq[OF qd, of s'] have "fov q \<noteq> None" by auto
        with fresh[OF sq] show False by simp
      qed
      with old[OF nsd] show ?thesis by simp
    qed
    ultimately show ?thesis using n(2) by blast
  qed
  have c4: "fov' d \<noteq> None"
    if q: "fov' q = Some (Some tq)" "q = Offset 0 0 \<or> Lite (h tq)" "(q, d) \<in> ?E" "q \<notin> set stack'"
    for q tq d
  proof (cases "q = s")
    case True
    with new[of d] q(3) show ?thesis by simp
  next
    case False
    show ?thesis
    proof (cases "(s, q) \<in> ?E")
      case True
      from new[OF True] q(1) have "neighbor_at h ts s q = Some tq" by simp
      moreover from no0[OF True] q(2) have "Lite (h tq)" by simp
      ultimately have "q \<in> set stack'" using in_stack'[of q] True by (simp add: lit_def)
      with q(4) show ?thesis by simp
    next
      case F2: False
      with q(1) old have "fov q = Some (Some tq)" by simp
      moreover have "q \<notin> set (s # rest)" using False q(4) in_stack'[of q] by simp
      ultimately have "fov d \<noteq> None" using i4[of q tq d] q(2,3) by blast
      with keep show ?thesis by simp
    qed
  qed
  have "flood_inv T h origin fov' stack'"
    unfolding flood_inv_def
  proof (intro conjI)
    show "fov' (Offset 0 0) = Some origin" by (rule c0)
    show "distinct stack'" by (rule c1)
    show "\<forall>d. d \<noteq> Offset 0 0 \<longrightarrow> fov' d \<noteq> None \<longrightarrow>
        (\<exists>s ts. (s, d) \<in> ?E \<and> s \<notin> set stack' \<and> fov' s = Some (Some ts) \<and>
           (s = Offset 0 0 \<or> Lite (h ts)) \<and> Adjacent (h ts) (Sub d s) \<noteq> None \<and>
           fov' d = Some (Adjacent (h ts) (Sub d s)))"
      by (intro allI impI) (rule c2)
    show "\<forall>s\<in>set stack'.
        (\<exists>ts. fov' s = Some (Some ts) \<and> (s = Offset 0 0 \<or> Lite (h ts))) \<and>
        (\<forall>d. (s, d) \<in> ?E \<longrightarrow> fov' d = None)"
      by (intro ballI) (rule c3)
    show "\<forall>s ts d. fov' s = Some (Some ts) \<longrightarrow> (s = Offset 0 0 \<or> Lite (h ts)) \<longrightarrow>
        (s, d) \<in> ?E \<longrightarrow> s \<notin> set stack' \<longrightarrow> fov' d \<noteq> None"
      by (intro allI impI) (rule c4)
  qed
  moreover have "(stack', s # rest) \<in> flood_order radius"
    unfolding stack' by (rule flood_order_step) (auto simp: set_neighbors_of T_def)
  ultimately show ?thesis by blast
qed

lemma origin_edge: "(Offset 0 0, Offset 1 0) \<in> edges (computeTable radius)"
proof -
  have "(Offset 0 0, Offset 1 0) \<in> octant (max radius 1)"
    by (auto simp: octant_def row_from_def break_at_def intro!: bexI[of _ 0])
  moreover have "id \<in> syms" by (simp add: syms_def)
  ultimately have "(id (Offset 0 0), id (Offset 1 0)) \<in> closure8 (octant (max radius 1))"
    unfolding closure8_iff by blast
  then show ?thesis by (simp add: edges_computeTable)
qed

lemma flood_nil_origin:
  "flood (computeTable radius) h [Offset 0 0 \<mapsto> None] [Offset 0 0] = Some (Inl NilDereference)"
proof -
  have "neighbors_of (computeTable radius) (Offset 0 0) \<noteq> []"
    using origin_edge[of radius] by (auto simp: edges_def)
  then show ?thesis
    by (subst flood.simps) (simp add: tile_at_def visit_nil)
qed

lemma flood_inv_init: "flood_inv (computeTable radius) h (Some a) [Offset 0 0 \<mapsto> Some a] [Offset 0 0]"
  unfolding flood_inv_def using table_no_origin[of "Offset 0 0" _ radius]
  by (auto split: if_splits)

lemma flood_computeTable:
  "\<exists>res. flood (computeTable radius) h [Offset 0 0 \<mapsto> Some a] [Offset 0 0] = Some res \<and>
     (\<forall>F. res = Inr F \<longrightarrow> flood_inv (computeTable radius) h (Some a) F [])"
  by (rule flood_rule[where R = "flood_order radius"
        and I = "flood_inv (computeTable radius) h (Some a)"])
    (rule wf_flood_order, rule flood_inv_init, rule flood_inv_step)

text \<open>What the invariant says once the stack is empty.\<close>

lemma flood_inv_final:
  assumes "flood_inv T h origin F []"
  shows "F (Offset 0 0) = Some origin"
    and "\<And>d. d \<noteq> Offset 0 0 \<Longrightarrow> F d \<noteq> None \<Longrightarrow>
        \<exists>s ts. (s, d) \<in> edges T \<and> F s = Some (Some ts) \<and> (s = Offset 0 0 \<or> Lite (h ts)) \<and>
           Adjacent (h ts) (Sub d s) \<noteq> None \<and> F d = Some (Adjacent (h ts) (Sub d s))"
    and "\<And>s ts d. F s = Some (Some ts) \<Longrightarrow> s = Offset 0 0 \<or> Lite (h ts) \<Longrightarrow>
        (s, d) \<in> edges T \<Longrightarrow> F d \<noteq> None"
proof -
  note i = assms[unfolded flood_inv_def]
  show "F (Offset 0 0) = Some origin" by (rule i[THEN conjunct1])
  show "\<exists>s ts. (s, d) \<in> edges T \<and> F s = Some (Some ts) \<and> (s = Offset 0 0 \<or> Lite (h ts)) \<and>
           Adjacent (h ts) (Sub d s) \<noteq> None \<and> F d = Some (Adjacent (h ts) (Sub d s))"
    if "d \<noteq> Offset 0 0" "F d \<noteq> None" for d
    using i[THEN conjunct2, THEN conjunct2, THEN conjunct1, rule_format, OF that] by blast
  show "F d \<noteq> None"
    if "F s = Some (Some ts)" "s = Offset 0 0 \<or> Lite (h ts)" "(s, d) \<in> edges T" for s ts d
    using i[THEN conjunct2, THEN conjunct2, THEN conjunct2, THEN conjunct2, rule_format, OF that] by simp
qed

lemma flood_inv_no_nil:
  assumes "flood_inv T h (Some a) F []"
  shows "F p \<noteq> Some None"
proof (cases "p = Offset 0 0")
  case True
  with flood_inv_final(1)[OF assms] show ?thesis by simp
next
  case False
  show ?thesis
  proof
    assume n: "F p = Some None"
    then have "F p \<noteq> None" by simp
    from flood_inv_final(2)[OF assms False this] n show False by auto
  qed
qed

section \<open>The wall fix and the outcomes of FoV\<close>

lemma wallfix_pos_x_ray:
  "wallfix_pos_x h radius dx fov = wallfix_ray h radius (Offset 1 0) (Offset 0 1) (dx) fov"
proof (induction h radius dx fov rule: wallfix_pos_x.induct)
  case (1 h radius dx fov)
  show ?case
  proof (cases "dx \<le> radius \<and> fov (Offset dx 0) \<noteq> None")
    case False
    then show ?thesis
      by (subst wallfix_pos_x.simps, subst wallfix_ray.simps) (auto simp: scale_def)
  next
    case True
    then have c1: "dx \<le> radius" and c2: "fov (Offset dx 0) \<noteq> None" by simp_all
    show ?thesis
    proof (cases "tile_at fov (Offset (dx - 1) 0)")
      case None
      with True show ?thesis
        by (subst wallfix_pos_x.simps, subst wallfix_ray.simps) (auto simp: scale_def)
    next
      case (Some pos)
      let ?f2 = "fov(Offset dx 1 \<mapsto> Adjacent (h pos) (Offset 1 1), Offset dx (- 1) \<mapsto> Adjacent (h pos) (Offset 1 (- 1)))"
      have L: "wallfix_pos_x h radius dx fov = wallfix_pos_x h radius (dx + 1) ?f2"
        by (subst wallfix_pos_x.simps) (simp only: c1 c2 Some if_True option.case not_False_eq_True)
      have R: "wallfix_ray h radius (Offset 1 0) (Offset 0 1) (dx) fov =
          wallfix_ray h radius (Offset 1 0) (Offset 0 1) (dx + 1) ?f2"
        using c1 c2 Some
        by (subst wallfix_ray.simps) (simp add: scale_def shift_def diff_def)
      from 1[OF c1 c2 Some] show ?thesis unfolding L R .
    qed
  qed
qed

lemma wallfix_neg_x_ray:
  "wallfix_neg_x h radius dx fov = wallfix_ray h radius (Offset (- 1) 0) (Offset 0 1) (- dx) fov"
proof (induction h radius dx fov rule: wallfix_neg_x.induct)
  case (1 h radius dx fov)
  show ?case
  proof (cases "dx \<ge> - radius \<and> fov (Offset dx 0) \<noteq> None")
    case False
    then show ?thesis
      by (subst wallfix_neg_x.simps, subst wallfix_ray.simps) (auto simp: scale_def)
  next
    case True
    then have c1: "dx \<ge> - radius" and c2: "fov (Offset dx 0) \<noteq> None" by simp_all
    show ?thesis
    proof (cases "tile_at fov (Offset (dx + 1) 0)")
      case None
      with True show ?thesis
        by (subst wallfix_neg_x.simps, subst wallfix_ray.simps) (auto simp: scale_def algebra_simps)
    next
      case (Some pos)
      let ?f2 = "fov(Offset dx 1 \<mapsto> Adjacent (h pos) (Offset (- 1) 1), Offset dx (- 1) \<mapsto> Adjacent (h pos) (Offset (- 1) (- 1)))"
      have L: "wallfix_neg_x h radius dx fov = wallfix_neg_x h radius (dx - 1) ?f2"
        by (subst wallfix_neg_x.simps) (simp only: c1 c2 Some if_True option.case not_False_eq_True)
      have R: "wallfix_ray h radius (Offset (- 1) 0) (Offset 0 1) (- dx) fov =
          wallfix_ray h radius (Offset (- 1) 0) (Offset 0 1) (- (dx - 1)) ?f2"
        using c1 c2 Some Some[unfolded add.commute[of dx 1]]
        by (subst wallfix_ray.simps) (simp add: scale_def shift_def diff_def)
      from 1[OF c1 c2 Some] show ?thesis unfolding L R .
    qed
  qed
qed

lemma wallfix_pos_y_ray:
  "wallfix_pos_y h radius dy fov = wallfix_ray h radius (Offset 0 1) (Offset 1 0) (dy) fov"
proof (induction h radius dy fov rule: wallfix_pos_y.induct)
  case (1 h radius dy fov)
  show ?case
  proof (cases "dy \<le> radius \<and> fov (Offset 0 dy) \<noteq> None")
    case False
    then show ?thesis
      by (subst wallfix_pos_y.simps, subst wallfix_ray.simps) (auto simp: scale_def)
  next
    case True
    then have c1: "dy \<le> radius" and c2: "fov (Offset 0 dy) \<noteq> None" by simp_all
    show ?thesis
    proof (cases "tile_at fov (Offset 0 (dy - 1))")
      case None
      with True show ?thesis
        by (subst wallfix_pos_y.simps, subst wallfix_ray.simps) (auto simp: scale_def)
    next
      case (Some pos)
      let ?f2 = "fov(Offset 1 dy \<mapsto> Adjacent (h pos) (Offset 1 1), Offset (- 1) dy \<mapsto> Adjacent (h pos) (Offset (- 1) 1))"
      have L: "wallfix_pos_y h radius dy fov = wallfix_pos_y h radius (dy + 1) ?f2"
        by (subst wallfix_pos_y.simps) (simp only: c1 c2 Some if_True option.case not_False_eq_True)
      have R: "wallfix_ray h radius (Offset 0 1) (Offset 1 0) (dy) fov =
          wallfix_ray h radius (Offset 0 1) (Offset 1 0) (dy + 1) ?f2"
        using c1 c2 Some
        by (subst wallfix_ray.simps) (simp add: scale_def shift_def diff_def)
      from 1[OF c1 c2 Some] show ?thesis unfolding L R .
    qed
  qed
qed

lemma wallfix_neg_y_ray:
  "wallfix_neg_y h radius dy fov = wallfix_ray h radius (Offset 0 (- 1)) (Offset 1 0) (- dy) fov"
proof (induction h radius dy fov rule: wallfix_neg_y.induct)
  case (1 h radius dy fov)
  show ?case
  proof (cases "dy \<ge> - radius \<and> fov (Offset 0 dy) \<noteq> None")
    case False
    then show ?thesis
      by (subst wallfix_neg_y.simps, subst wallfix_ray.simps) (auto simp: scale_def)
  next
    case True
    then have c1: "dy \<ge> - radius" and c2: "fov (Offset 0 dy) \<noteq> None" by simp_all
    show ?thesis
    proof (cases "tile_at fov (Offset 0 (dy + 1))")
      case None
      with True show ?thesis
        by (subst wallfix_neg_y.simps, subst wallfix_ray.simps) (auto simp: scale_def algebra_simps)
    next
      case (Some pos)
      let ?f2 = "fov(Offset 1 dy \<mapsto> Adjacent (h pos) (Offset 1 (- 1)), Offset (- 1) dy \<mapsto> Adjacent (h pos) (Offset (- 1) (- 1)))"
      have L: "wallfix_neg_y h radius dy fov = wallfix_neg_y h radius (dy - 1) ?f2"
        by (subst wallfix_neg_y.simps) (simp only: c1 c2 Some if_True option.case not_False_eq_True)
      have R: "wallfix_ray h radius (Offset 0 (- 1)) (Offset 1 0) (- dy) fov =
          wallfix_ray h radius (Offset 0 (- 1)) (Offset 1 0) (- (dy - 1)) ?f2"
        using c1 c2 Some Some[unfolded add.commute[of dy 1]]
        by (subst wallfix_ray.simps) (simp add: scale_def shift_def diff_def)
      from 1[OF c1 c2 Some] show ?thesis unfolding L R .
    qed
  qed
qed

lemma ray_result:
  "wallfix_ray h radius dir perp i fov = Inr F \<Longrightarrow>
     (\<forall>p. fov p \<noteq> None \<longrightarrow> F p \<noteq> None) \<and>
     (\<forall>p. F p \<noteq> fov p \<longrightarrow>
        (\<exists>k. i \<le> k \<and> k \<le> radius \<and> (p = shift (scale dir k) perp \<or> p = diff (scale dir k) perp)))"
proof (induction h radius dir perp i fov rule: wallfix_ray.induct)
  case (1 h radius dir perp i fov)
  show ?case
  proof (cases "i \<le> radius \<and> fov (scale dir i) \<noteq> None")
    case False
    with 1(2) have "F = fov" by (subst (asm) wallfix_ray.simps) (auto split: if_splits)
    then show ?thesis by simp
  next
    case True
    then have c1: "i \<le> radius" and c2: "fov (scale dir i) \<noteq> None" by simp_all
    show ?thesis
    proof (cases "tile_at fov (scale dir (i - 1))")
      case None
      with 1(2) True show ?thesis by (subst (asm) wallfix_ray.simps) simp
    next
      case (Some pos)
      let ?f2 = "fov(shift (scale dir i) perp \<mapsto> Adjacent (h pos) (shift dir perp),
                     diff (scale dir i) perp \<mapsto> Adjacent (h pos) (diff dir perp))"
      have "wallfix_ray h radius dir perp i fov = wallfix_ray h radius dir perp (i + 1) ?f2"
        by (subst wallfix_ray.simps) (simp only: c1 c2 Some if_True option.case not_False_eq_True)
      with 1(2) have "wallfix_ray h radius dir perp (i + 1) ?f2 = Inr F" by simp
      from 1(1)[OF c1 c2 Some this]
      have a: "\<And>p. ?f2 p \<noteq> None \<Longrightarrow> F p \<noteq> None"
        and b: "\<And>p. F p \<noteq> ?f2 p \<Longrightarrow>
          \<exists>k. i + 1 \<le> k \<and> k \<le> radius \<and> (p = shift (scale dir k) perp \<or> p = diff (scale dir k) perp)"
        by blast+
      have "F p \<noteq> None" if "fov p \<noteq> None" for p
        using a[of p] that by (auto split: if_splits)
      moreover have "\<exists>k. i \<le> k \<and> k \<le> radius \<and> (p = shift (scale dir k) perp \<or> p = diff (scale dir k) perp)"
        if "F p \<noteq> fov p" for p
      proof (cases "F p = ?f2 p")
        case True
        with that have "p = shift (scale dir i) perp \<or> p = diff (scale dir i) perp"
          by (auto split: if_splits)
        with c1 show ?thesis by blast
      next
        case False
        from b[OF this] obtain k where "i + 1 \<le> k" "k \<le> radius"
          "p = shift (scale dir k) perp \<or> p = diff (scale dir k) perp" by blast
        then show ?thesis by (intro exI[of _ k]) simp
      qed
      ultimately show ?thesis by blast
    qed
  qed
qed

lemma ray_total:
  "\<forall>k k'. scale dir k \<noteq> shift (scale dir k') perp \<and> scale dir k \<noteq> diff (scale dir k') perp \<Longrightarrow>
   \<forall>k. fov (scale dir k) \<noteq> Some None \<Longrightarrow> fov (scale dir (i - 1)) \<noteq> None \<Longrightarrow>
   \<exists>F. wallfix_ray h radius dir perp i fov = Inr F"
proof (induction h radius dir perp i fov rule: wallfix_ray.induct)
  case (1 h radius dir perp i fov)
  note sep = 1(2) and ax0 = 1(3) and prev = 1(4)
  show ?case
  proof (cases "i \<le> radius \<and> fov (scale dir i) \<noteq> None")
    case False
    then show ?thesis by (subst wallfix_ray.simps) auto
  next
    case True
    then have c1: "i \<le> radius" and c2: "fov (scale dir i) \<noteq> None" by simp_all
    from prev obtain q where q: "fov (scale dir (i - 1)) = Some q" by auto
    with ax0[rule_format, of "i - 1"] obtain pos where "q = Some pos" by (cases q) auto
    with q have Some: "tile_at fov (scale dir (i - 1)) = Some pos" by (simp add: tile_at_def)
    let ?f2 = "fov(shift (scale dir i) perp \<mapsto> Adjacent (h pos) (shift dir perp),
                   diff (scale dir i) perp \<mapsto> Adjacent (h pos) (diff dir perp))"
    have eq: "wallfix_ray h radius dir perp i fov = wallfix_ray h radius dir perp (i + 1) ?f2"
      by (subst wallfix_ray.simps) (simp only: c1 c2 Some if_True option.case not_False_eq_True)
    have ax: "?f2 (scale dir k) = fov (scale dir k)" for k
      using sep[rule_format, of k i] by simp
    have "\<forall>k. ?f2 (scale dir k) \<noteq> Some None" using ax0 by (simp only: ax) simp
    moreover have "?f2 (scale dir (i + 1 - 1)) \<noteq> None" using c2 ax[of i] by simp
    ultimately show ?thesis
      unfolding eq by (intro 1(1)[OF c1 c2 Some sep])
  qed
qed

lemma rays_sep:
  assumes "(dir, perp) \<in> rays"
  shows "scale dir k \<noteq> shift (scale dir k') perp \<and> scale dir k \<noteq> diff (scale dir k') perp"
  using assms by (auto simp: rays_def scale_def shift_def diff_def)

lemma rays_patch:
  assumes "(dir, perp) \<in> rays" "1 \<le> k" "k \<le> radius"
  shows "patch radius (shift (scale dir k) perp)" "patch radius (diff (scale dir k) perp)"
  using assms by (auto simp: rays_def scale_def shift_def diff_def patch_def)

lemma rays_axis:
  assumes "(dir, perp) \<in> rays"
  shows "X (scale dir k) = 0 \<or> Y (scale dir k) = 0"
  using assms by (auto simp: rays_def scale_def)

lemma patch_off_axis: "patch radius p \<Longrightarrow> X p \<noteq> 0 \<and> Y p \<noteq> 0"
  by (auto simp: patch_def)

lemma ray_step:
  assumes r: "(dir, perp) \<in> rays"
    and ax: "\<forall>p. X p = 0 \<or> Y p = 0 \<longrightarrow> fov p \<noteq> None \<longrightarrow> fov p \<noteq> Some None"
    and o: "fov (Offset 0 0) \<noteq> None"
  shows "\<exists>F. wallfix_ray h radius dir perp 1 fov = Inr F \<and>
           (\<forall>p. fov p \<noteq> None \<longrightarrow> F p \<noteq> None) \<and>
           (\<forall>p. F p \<noteq> fov p \<longrightarrow> patch radius p)"
proof -
  have z: "scale dir (1 - 1) = Offset 0 0" by (simp add: scale_def)
  have "\<exists>F. wallfix_ray h radius dir perp 1 fov = Inr F"
  proof (rule ray_total)
    show "\<forall>k k'. scale dir k \<noteq> shift (scale dir k') perp \<and> scale dir k \<noteq> diff (scale dir k') perp"
      using rays_sep[OF r] by blast
    show "\<forall>k. fov (scale dir k) \<noteq> Some None"
      using ax rays_axis[OF r] by (metis option.distinct(1))
    show "fov (scale dir (1 - 1)) \<noteq> None" using o unfolding z .
  qed
  then obtain F where F: "wallfix_ray h radius dir perp 1 fov = Inr F" by blast
  from ray_result[OF F] rays_patch[OF r] have
    "(\<forall>p. fov p \<noteq> None \<longrightarrow> F p \<noteq> None) \<and> (\<forall>p. F p \<noteq> fov p \<longrightarrow> patch radius p)"
    by blast
  with F show ?thesis by blast
qed

lemma wallfix_rays:
  "wallfix h fov radius =
     (case wallfix_ray h radius (Offset 1 0) (Offset 0 1) 1 fov of Inl e \<Rightarrow> Inl e | Inr fov1 \<Rightarrow>
      case wallfix_ray h radius (Offset (- 1) 0) (Offset 0 1) 1 fov1 of Inl e \<Rightarrow> Inl e | Inr fov2 \<Rightarrow>
      case wallfix_ray h radius (Offset 0 1) (Offset 1 0) 1 fov2 of Inl e \<Rightarrow> Inl e | Inr fov3 \<Rightarrow>
      wallfix_ray h radius (Offset 0 (- 1)) (Offset 1 0) 1 fov3)"
proof -
  have m: "- (- 1) = (1::int)" by simp
  show ?thesis
    unfolding wallfix_def wallfix_pos_x_ray wallfix_neg_x_ray wallfix_pos_y_ray wallfix_neg_y_ray m ..
qed

lemma ray_step':
  assumes r: "(dir, perp) \<in> rays" and w: "wall_ok fov"
    and prev: "\<forall>p. fov0 p \<noteq> None \<longrightarrow> fov p \<noteq> None" "\<forall>p. fov p \<noteq> fov0 p \<longrightarrow> patch radius p"
  shows "\<exists>F. wallfix_ray h radius dir perp 1 fov = Inr F \<and> wall_ok F \<and>
           (\<forall>p. fov0 p \<noteq> None \<longrightarrow> F p \<noteq> None) \<and>
           (\<forall>p. F p \<noteq> fov0 p \<longrightarrow> patch radius p)"
proof -
  from ray_step[OF r, of fov h radius] w obtain F where F:
    "wallfix_ray h radius dir perp 1 fov = Inr F"
    "\<forall>p. fov p \<noteq> None \<longrightarrow> F p \<noteq> None" "\<forall>p. F p \<noteq> fov p \<longrightarrow> patch radius p"
    unfolding wall_ok_def by blast
  have same: "F p = fov p" if "X p = 0 \<or> Y p = 0" for p
    using F(3) patch_off_axis[of radius p] that by blast
  have "wall_ok F"
    unfolding wall_ok_def using w[unfolded wall_ok_def] same by simp
  moreover have "\<forall>p. fov0 p \<noteq> None \<longrightarrow> F p \<noteq> None" using prev(1) F(2) by blast
  moreover have "\<forall>p. F p \<noteq> fov0 p \<longrightarrow> patch radius p" using prev(2) F(3) by metis
  ultimately show ?thesis using F(1) by blast
qed

lemma wallfix_total:
  assumes "wall_ok fov"
  shows "\<exists>F. wallfix h fov radius = Inr F \<and>
           (\<forall>p. fov p \<noteq> None \<longrightarrow> F p \<noteq> None) \<and> (\<forall>p. F p \<noteq> fov p \<longrightarrow> patch radius p)"
proof -
  have r: "(Offset 1 0, Offset 0 1) \<in> rays" "(Offset (- 1) 0, Offset 0 1) \<in> rays"
    "(Offset 0 1, Offset 1 0) \<in> rays" "(Offset 0 (- 1), Offset 1 0) \<in> rays"
    by (simp_all add: rays_def)
  from ray_step'[OF r(1) assms, of fov radius h] obtain f1 where f1:
    "wallfix_ray h radius (Offset 1 0) (Offset 0 1) 1 fov = Inr f1" "wall_ok f1"
    "\<forall>p. fov p \<noteq> None \<longrightarrow> f1 p \<noteq> None" "\<forall>p. f1 p \<noteq> fov p \<longrightarrow> patch radius p" by auto
  from ray_step'[OF r(2) f1(2,3,4), of h] obtain f2 where f2:
    "wallfix_ray h radius (Offset (- 1) 0) (Offset 0 1) 1 f1 = Inr f2" "wall_ok f2"
    "\<forall>p. fov p \<noteq> None \<longrightarrow> f2 p \<noteq> None" "\<forall>p. f2 p \<noteq> fov p \<longrightarrow> patch radius p" by auto
  from ray_step'[OF r(3) f2(2,3,4), of h] obtain f3 where f3:
    "wallfix_ray h radius (Offset 0 1) (Offset 1 0) 1 f2 = Inr f3" "wall_ok f3"
    "\<forall>p. fov p \<noteq> None \<longrightarrow> f3 p \<noteq> None" "\<forall>p. f3 p \<noteq> fov p \<longrightarrow> patch radius p" by auto
  from ray_step'[OF r(4) f3(2,3,4), of h] obtain f4 where f4:
    "wallfix_ray h radius (Offset 0 (- 1)) (Offset 1 0) 1 f3 = Inr f4"
    "\<forall>p. fov p \<noteq> None \<longrightarrow> f4 p \<noteq> None" "\<forall>p. f4 p \<noteq> fov p \<longrightarrow> patch radius p" by auto
  have "wallfix h fov radius = Inr f4"
    by (simp add: wallfix_rays f1(1) f2(1) f3(1) f4(1))
  with f4(2,3) show ?thesis by blast
qed

subsection \<open>The outcomes of FoV\<close>

lemma flood_wall_ok:
  assumes "flood_inv T h (Some a) F []"
  shows "wall_ok F"
  unfolding wall_ok_def
  using flood_inv_no_nil[OF assms] flood_inv_final(1)[OF assms] by simp

section \<open>What wallfix writes, and the outcomes of FoV\<close>

lemma patched_mono:
  assumes ax: "\<And>q. X q = 0 \<or> Y q = 0 \<Longrightarrow> f q = g q"
    and p: "patched h radius f p v"
  shows "patched h radius g p v"
proof -
  from p obtain dir perp k pos where w: "(dir, perp) \<in> rays" "1 \<le> k" "k \<le> radius"
    "tile_at f (scale dir (k - 1)) = Some pos"
    "(p = shift (scale dir k) perp \<and> v = Some (Adjacent (h pos) (shift dir perp))) \<or>
     (p = diff (scale dir k) perp \<and> v = Some (Adjacent (h pos) (diff dir perp)))"
    unfolding patched_def by blast
  have "tile_at g (scale dir (k - 1)) = Some pos"
    using ax[OF rays_axis[OF w(1), of "k - 1"]] w(4) by (simp add: tile_at_def)
  with w(1,2,3,5) show ?thesis unfolding patched_def by blast
qed

lemma patched_cong:
  assumes "\<And>q. X q = 0 \<or> Y q = 0 \<Longrightarrow> f q = g q"
  shows "patched h radius f p v = patched h radius g p v"
  using patched_mono[of f g h radius p v] patched_mono[of g f h radius p v] assms by auto

lemma patched_patch: "patched h radius fov p v \<Longrightarrow> patch radius p"
  unfolding patched_def using rays_patch by blast

lemma rays_two_sides: "(dir, perp) \<in> rays \<Longrightarrow> shift q perp \<noteq> diff q perp"
  by (cases q) (auto simp: rays_def shift_def diff_def)

lemma ray_value:
  "(dir, perp) \<in> rays \<Longrightarrow> 1 \<le> i \<Longrightarrow> wallfix_ray h radius dir perp i fov = Inr F \<Longrightarrow>
     F p \<noteq> fov p \<Longrightarrow> patched h radius fov p (F p)"
proof (induction h radius dir perp i fov rule: wallfix_ray.induct)
  case (1 h radius dir perp i fov)
  note r = 1(2) and i1 = 1(3) and res = 1(4) and diff = 1(5)
  show ?case
  proof (cases "i \<le> radius \<and> fov (scale dir i) \<noteq> None")
    case False
    with res have "F = fov" by (subst (asm) wallfix_ray.simps) (auto split: if_splits)
    with diff show ?thesis by simp
  next
    case True
    then have c1: "i \<le> radius" and c2: "fov (scale dir i) \<noteq> None" by simp_all
    show ?thesis
    proof (cases "tile_at fov (scale dir (i - 1))")
      case None
      with res True show ?thesis by (subst (asm) wallfix_ray.simps) simp
    next
      case (Some pos)
      let ?f2 = "fov(shift (scale dir i) perp \<mapsto> Adjacent (h pos) (shift dir perp),
                     diff (scale dir i) perp \<mapsto> Adjacent (h pos) (diff dir perp))"
      have "wallfix_ray h radius dir perp i fov = wallfix_ray h radius dir perp (i + 1) ?f2"
        by (subst wallfix_ray.simps) (simp only: c1 c2 Some if_True option.case not_False_eq_True)
      with res have res2: "wallfix_ray h radius dir perp (i + 1) ?f2 = Inr F" by simp
      have i2: "1 \<le> i + 1" using i1 by simp
      have off: "X q \<noteq> 0 \<and> Y q \<noteq> 0"
        if "q = shift (scale dir i) perp \<or> q = diff (scale dir i) perp" for q
        using that rays_patch[OF r i1 c1] patch_off_axis by blast
      have same: "?f2 q = fov q" if "X q = 0 \<or> Y q = 0" for q
        using that off[of q] by auto
      show ?thesis
      proof (cases "F p = ?f2 p")
        case False
        from 1(1)[OF c1 c2 Some r i2 res2 False]
        have "patched h radius ?f2 p (F p)" .
        then show ?thesis by (simp only: patched_cong[of ?f2 fov, OF same])
      next
        case True
        with diff have ne: "?f2 p \<noteq> fov p" by simp
        then have "p = shift (scale dir i) perp \<or> p = diff (scale dir i) perp"
          by (auto split: if_splits)
        then have "(p = shift (scale dir i) perp \<and> F p = Some (Adjacent (h pos) (shift dir perp))) \<or>
                   (p = diff (scale dir i) perp \<and> F p = Some (Adjacent (h pos) (diff dir perp)))"
          using True rays_two_sides[OF r, of "scale dir i"] by auto
        with r i1 c1 Some show ?thesis unfolding patched_def by blast
      qed
    qed
  qed
qed

lemma wallfix_value:
  assumes w: "wall_ok fov" and res: "wallfix h fov radius = Inr F"
  shows "F p = fov p \<or> patched h radius fov p (F p)"
proof -
  have r: "(Offset 1 0, Offset 0 1) \<in> rays" "(Offset (- 1) 0, Offset 0 1) \<in> rays"
    "(Offset 0 1, Offset 1 0) \<in> rays" "(Offset 0 (- 1), Offset 1 0) \<in> rays"
    by (simp_all add: rays_def)
  from ray_step'[OF r(1) w, of fov radius h] obtain f1 where f1:
    "wallfix_ray h radius (Offset 1 0) (Offset 0 1) 1 fov = Inr f1" "wall_ok f1"
    "\<forall>p. fov p \<noteq> None \<longrightarrow> f1 p \<noteq> None" "\<forall>p. f1 p \<noteq> fov p \<longrightarrow> patch radius p" by auto
  from ray_step'[OF r(2) f1(2,3,4), of h] obtain f2 where f2:
    "wallfix_ray h radius (Offset (- 1) 0) (Offset 0 1) 1 f1 = Inr f2" "wall_ok f2"
    "\<forall>p. fov p \<noteq> None \<longrightarrow> f2 p \<noteq> None" "\<forall>p. f2 p \<noteq> fov p \<longrightarrow> patch radius p" by auto
  from ray_step'[OF r(3) f2(2,3,4), of h] obtain f3 where f3:
    "wallfix_ray h radius (Offset 0 1) (Offset 1 0) 1 f2 = Inr f3" "wall_ok f3"
    "\<forall>p. fov p \<noteq> None \<longrightarrow> f3 p \<noteq> None" "\<forall>p. f3 p \<noteq> fov p \<longrightarrow> patch radius p" by auto
  from ray_step'[OF r(4) f3(2,3,4), of h] obtain f4 where f4:
    "wallfix_ray h radius (Offset 0 (- 1)) (Offset 1 0) 1 f3 = Inr f4" by auto
  have "wallfix h fov radius = Inr f4"
    by (simp add: wallfix_rays f1(1) f2(1) f3(1) f4(1))
  with res have F: "F = f4" by simp
  have ax: "f q = fov q" if "\<forall>p. f p \<noteq> fov p \<longrightarrow> patch radius p" "X q = 0 \<or> Y q = 0" for f q
    using that patch_off_axis[of radius q] by blast
  have s1: "f1 p = fov p \<or> patched h radius fov p (f1 p)"
    using ray_value[OF r(1) order_refl f1(1), of p] by blast
  have s2: "f2 p = fov p \<or> patched h radius fov p (f2 p)"
  proof (cases "f2 p = f1 p")
    case True with s1 show ?thesis by simp
  next
    case False
    from ray_value[OF r(2) order_refl f2(1) False]
    have "patched h radius fov p (f2 p)" by (simp only: patched_cong[of f1 fov, OF ax[OF f1(4)]])
    then show ?thesis by simp
  qed
  have s3: "f3 p = fov p \<or> patched h radius fov p (f3 p)"
  proof (cases "f3 p = f2 p")
    case True with s2 show ?thesis by simp
  next
    case False
    from ray_value[OF r(3) order_refl f3(1) False]
    have "patched h radius fov p (f3 p)" by (simp only: patched_cong[of f2 fov, OF ax[OF f2(4)]])
    then show ?thesis by simp
  qed
  have s4: "f4 p = fov p \<or> patched h radius fov p (f4 p)"
  proof (cases "f4 p = f3 p")
    case True with s3 show ?thesis by simp
  next
    case False
    from ray_value[OF r(4) order_refl f4(1) False]
    have "patched h radius fov p (f4 p)" by (simp only: patched_cong[of f3 fov, OF ax[OF f3(4)]])
    then show ?thesis by simp
  qed
  then show ?thesis by (simp add: F)
qed

lemma FoV_cases:
  assumes ok: "caches_ok c"
  obtains (failed) c' where "FoV c h origin radius = Some (Inl NilDereference, c')" "caches_ok c'"
  | (returned) a c' F0 F where "origin = Some a"
      "flood_inv (computeTable radius) h origin F0 []"
      "wallfix h F0 radius = Inr F"
      "FoV c h origin radius = Some (Inr F, c')" "caches_ok c'"
      "\<forall>p. F0 p \<noteq> None \<longrightarrow> F p \<noteq> None" "\<forall>p. F p \<noteq> F0 p \<longrightarrow> patch radius p"
      "\<forall>p. F p = F0 p \<or> patched h radius F0 p (F p)"
proof -
  obtain t c' where ct: "cachedTable c radius = (t, c')" by force
  from cachedTable_ok[OF ok ct] have t: "t = computeTable radius" and ok': "caches_ok c'" .
  show thesis
  proof (cases origin)
    case None
    have "FoV c h origin radius = Some (Inl NilDereference, c')"
      by (simp add: FoV_def ct t None flood_nil_origin)
    from this ok' show ?thesis by (rule failed)
  next
    case (Some a)
    from flood_computeTable[of radius h a] obtain res where res:
      "flood (computeTable radius) h [Offset 0 0 \<mapsto> Some a] [Offset 0 0] = Some res"
      "\<forall>F. res = Inr F \<longrightarrow> flood_inv (computeTable radius) h (Some a) F []" by blast
    show ?thesis
    proof (cases res)
      case (Inl e)
      then have "res = Inl NilDereference" by (cases e) simp
      with res(1) have "FoV c h origin radius = Some (Inl NilDereference, c')"
        by (simp add: FoV_def ct t Some)
      from this ok' show ?thesis by (rule failed)
    next
      case (Inr F0)
      with res(2) have inv: "flood_inv (computeTable radius) h (Some a) F0 []" by simp
      from wallfix_total[OF flood_wall_ok[OF inv], of h radius] obtain F where F:
        "wallfix h F0 radius = Inr F" "\<forall>p. F0 p \<noteq> None \<longrightarrow> F p \<noteq> None"
        "\<forall>p. F p \<noteq> F0 p \<longrightarrow> patch radius p" by blast
      have "FoV c h origin radius = Some (Inr F, c')"
        using res(1) Inr F(1) by (simp add: FoV_def ct t Some)
      moreover have "\<forall>p. F p = F0 p \<or> patched h radius F0 p (F p)"
        using wallfix_value[OF flood_wall_ok[OF inv] F(1)] by blast
      ultimately show ?thesis using Some inv F ok' by (intro returned[of a F0 F c']) simp_all
    qed
  qed
qed

section \<open>Properties of FoV\<close>

lemma FoV_returnsE:
  assumes "caches_ok c" "FoV_returns c h origin radius"
  obtains a c' F0 F where "origin = Some a"
      "flood_inv (computeTable radius) h origin F0 []"
      "FoV c h origin radius = Some (Inr F, c')" "caches_ok c'"
      "\<forall>p. F0 p \<noteq> None \<longrightarrow> F p \<noteq> None" "\<forall>p. F p \<noteq> F0 p \<longrightarrow> patch radius p"
      "\<forall>p. F p = F0 p \<or> patched h radius F0 p (F p)"
      "\<forall>p. FoV_entry c h origin radius p = F p"
proof (rule FoV_cases[OF assms(1), of h origin radius])
  fix c' assume "FoV c h origin radius = Some (Inl NilDereference, c')"
  with assms(2) show thesis by (simp add: FoV_returns_def)
next
  fix a c' F0 F
  assume r: "origin = Some a"
      "flood_inv (computeTable radius) h origin F0 []"
      "wallfix h F0 radius = Inr F"
      "FoV c h origin radius = Some (Inr F, c')" "caches_ok c'"
      "\<forall>p. F0 p \<noteq> None \<longrightarrow> F p \<noteq> None" "\<forall>p. F p \<noteq> F0 p \<longrightarrow> patch radius p"
      "\<forall>p. F p = F0 p \<or> patched h radius F0 p (F p)"
  have "\<forall>p. FoV_entry c h origin radius p = F p"
    by (simp add: FoV_entry_def r(4))
  with r show thesis by (intro that[of a F0 F c']) simp_all
qed

lemma FoV_total:
  assumes "caches_ok c"
  shows "FoV_returns c h origin radius \<or> FoV_fails c h origin radius"
  by (rule FoV_cases[OF assms, of h origin radius]) (simp_all add: FoV_returns_def FoV_fails_def)

lemma patch_distance: "patch radius p \<Longrightarrow> distance p \<le> radius \<and> 1 \<le> radius"
  by (auto simp: patch_def distance_alt)

lemma flood_key_bound:
  assumes "flood_inv (computeTable radius) h origin F0 []" "F0 p \<noteq> None"
  shows "distance p \<le> max radius 1"
proof (cases "p = Offset 0 0")
  case True
  then show ?thesis by (simp add: distance_alt)
next
  case False
  from flood_inv_final(2)[OF assms(1) False assms(2)] obtain s where
    "(s, p) \<in> edges (computeTable radius)" by blast
  from table_ring[OF this] show ?thesis by simp
qed

lemma FoV_origin_entry:
  assumes "caches_ok c" "FoV_returns c h origin radius"
  shows "FoV_entry c h origin radius (Offset 0 0) = Some origin"
proof -
  from assms obtain a c' F0 F where "origin = Some a"
      and r2: "flood_inv (computeTable radius) h origin F0 []"
      and "FoV c h origin radius = Some (Inr F, c')" "caches_ok c'"
        "\<forall>p. F0 p \<noteq> None \<longrightarrow> F p \<noteq> None"
      and r3: "\<forall>p. F p \<noteq> F0 p \<longrightarrow> patch radius p"
      and "\<forall>p. F p = F0 p \<or> patched h radius F0 p (F p)"
      and r4: "\<forall>p. FoV_entry c h origin radius p = F p"
    by (rule FoV_returnsE) blast
  have "F (Offset 0 0) = F0 (Offset 0 0)"
    using r3 patch_off_axis[of radius "Offset 0 0"] by auto
  with flood_inv_final(1)[OF r2] show ?thesis by (simp add: r4)
qed

lemma FoV_key_bound:
  assumes "caches_ok c" "FoV_returns c h origin radius" "FoV_entry c h origin radius p \<noteq> None"
  shows "distance p \<le> max radius 1"
proof -
  from assms(1,2) obtain a c' F0 F where "origin = Some a"
      and r2: "flood_inv (computeTable radius) h origin F0 []"
      and "FoV c h origin radius = Some (Inr F, c')" "caches_ok c'"
        "\<forall>p. F0 p \<noteq> None \<longrightarrow> F p \<noteq> None"
      and r3: "\<forall>p. F p \<noteq> F0 p \<longrightarrow> patch radius p"
      and "\<forall>p. F p = F0 p \<or> patched h radius F0 p (F p)"
      and r4: "\<forall>p. FoV_entry c h origin radius p = F p"
    by (rule FoV_returnsE) blast
  show ?thesis
  proof (cases "F p = F0 p")
    case True
    with assms(3) have "F0 p \<noteq> None" by (simp add: r4)
    from flood_key_bound[OF r2 this] show ?thesis .
  next
    case False
    with r3 have "patch radius p" by blast
    from patch_distance[OF this] show ?thesis by simp
  qed
qed

text \<open>
  C6, as the code has it.  A call of \<^verbatim>\<open>FoV\<close> either returns a map or fails with a nil
  dereference.  A returned map holds the origin tile at \<open>(0, 0)\<close>, and every key lies
  within Chebyshev distance \<open>max radius 1\<close>: within \<open>radius\<close> for a radius of at least one,
  within one for a smaller radius.
\<close>

theorem FoV_origin_and_keys:
  assumes "caches_ok c"
  shows "(FoV_returns c h origin radius \<or> FoV_fails c h origin radius) \<and>
         (FoV_returns c h origin radius \<longrightarrow>
            FoV_entry c h origin radius (Offset 0 0) = Some origin \<and>
            (\<forall>p. FoV_entry c h origin radius p \<noteq> None \<longrightarrow> distance p \<le> max radius 1))"
  using FoV_total[OF assms] FoV_origin_entry[OF assms] FoV_key_bound[OF assms] by blast

theorem FoV_origin_and_keys_witness:
  "caches_ok no_caches \<and> FoV_returns no_caches (grid 3 3 [4]) (Some 4) 1 \<and>
   FoV_entry no_caches (grid 3 3 [4]) (Some 4) 1 (Offset 0 0) = Some (Some 4) \<and>
   FoV_entry no_caches (grid 3 3 [4]) (Some 4) 1 (Offset 1 1) = Some (Some 8) \<and>
   distance (Offset 1 1) \<le> max 1 1"
proof -
  have r: "FoV_returns no_caches (grid 3 3 [4]) (Some 4) 1" by code_simp
  have e: "FoV_entry no_caches (grid 3 3 [4]) (Some 4) 1 (Offset 1 1) = Some (Some 8)" by code_simp
  from FoV_origin_and_keys[OF caches_ok_empty, of "grid 3 3 [4]" "Some 4" 1] r e caches_ok_empty
  show ?thesis by auto
qed

theorem FoV_radius_zero_counterexample:
  "FoV_returns no_caches (grid 3 3 [4]) (Some 4) 0 \<and>
   FoV_entry no_caches (grid 3 3 [4]) (Some 4) 0 (Offset 1 0) = Some (Some 5) \<and>
   \<not> distance (Offset 1 0) \<le> 0"
  by code_simp

lemma diff_sym: "g \<in> syms \<Longrightarrow> diff (g b) (g a) = g (diff b a)"
  by (erule syms_cases) (simp_all add: diff_def swp_def negX_def negY_def negXY_def)

lemma diff_unit_step:
  assumes "(s, d) \<in> edges (computeTable radius)"
  shows "distance (diff d s) = 1"
proof -
  from assms obtain g a b where g: "g \<in> syms" "(a, b) \<in> octant (max radius 1)" "s = g a" "d = g b"
    by (rule table_edgeE)
  from octant_form[OF g(2)] have "distance (diff b a) = 1"
    by (auto simp: diff_def distance_alt)
  with g show ?thesis by (simp add: diff_sym distance_sym)
qed

lemma distance_diff_commute: "distance (diff p q) = distance (diff q p)"
  by (simp add: distance_def diff_def abs_minus_commute)

text \<open>Along an edge of a computed table the subtraction of the program does not overflow.\<close>

lemma Sub_edge:
  assumes "(s, d) \<in> edges (computeTable radius)"
  shows "Sub d s = diff d s" "Sub s d = diff s d"
  using diff_unit_step[OF assms] distance_diff_commute[of s d]
  by (simp_all add: Sub_diff)

lemma table_unit_step:
  assumes "(s, d) \<in> edges (computeTable radius)"
  shows "distance (Sub d s) = 1"
  using diff_unit_step[OF assms] by (simp add: Sub_edge[OF assms])

lemma diff_origin: "diff d (Offset 0 0) = d"
  by (cases d) (simp add: diff_def)

lemma Sub_origin: "(Offset 0 0, d) \<in> edges (computeTable radius) \<Longrightarrow> Sub d (Offset 0 0) = d"
  by (simp add: Sub_edge diff_origin)

lemma origin_successors:
  assumes inv: "flood_inv (computeTable radius) h (Some a) F0 []"
    and e: "(Offset 0 0, d) \<in> edges (computeTable radius)"
  shows "F0 d = Some (Adjacent (h a) d)" "Adjacent (h a) d \<noteq> None"
proof -
  have o: "F0 (Offset 0 0) = Some (Some a)" by (rule flood_inv_final(1)[OF inv])
  from flood_inv_final(3)[OF inv o _ e] have k: "F0 d \<noteq> None" by simp
  from flood_inv_final(2)[OF inv table_no_origin[OF e] k] obtain s ts where s:
    "(s, d) \<in> edges (computeTable radius)" "F0 s = Some (Some ts)"
    "Adjacent (h ts) (Sub d s) \<noteq> None" "F0 d = Some (Adjacent (h ts) (Sub d s))" by blast
  from table_unique_pred[OF s(1) e] have "s = Offset 0 0" .
  with s o e show "F0 d = Some (Adjacent (h a) d)" "Adjacent (h a) d \<noteq> None"
    by (simp_all add: Sub_origin)
qed

lemma ring_one_edge: "distance d = 1 \<Longrightarrow> (Offset 0 0, d) \<in> edges (computeTable radius)"
proof -
  assume d: "distance d = 1"
  then obtain s where s: "(s, d) \<in> edges (computeTable radius)"
    using table_cover[of d radius] by auto
  from table_ring(1,2)[OF s] d have "distance s = 0" by simp
  with s show ?thesis by (simp add: distance_zero_iff)
qed

lemma rays_distance:
  assumes "(dir, perp) \<in> rays" "1 \<le> k"
  shows "distance (shift (scale dir k) perp) = k" "distance (diff (scale dir k) perp) = k"
  using assms by (auto simp: rays_def scale_def shift_def diff_def distance_alt)

lemma rays_scale: "scale dir 1 = dir" "scale dir 0 = Offset 0 0"
  by (cases dir; simp add: scale_def)+

lemma patched_ring_one:
  assumes p: "patched h radius F0 d v" and d: "distance d = 1"
    and o: "F0 (Offset 0 0) = Some (Some a)"
  shows "v = Some (Adjacent (h a) d)"
proof -
  from p obtain dir perp k pos where w: "(dir, perp) \<in> rays" "1 \<le> k"
    "tile_at F0 (scale dir (k - 1)) = Some pos"
    "(d = shift (scale dir k) perp \<and> v = Some (Adjacent (h pos) (shift dir perp))) \<or>
     (d = diff (scale dir k) perp \<and> v = Some (Adjacent (h pos) (diff dir perp)))"
    unfolding patched_def by blast
  from w(4) rays_distance[OF w(1,2)] d have k: "k = 1" by auto
  with w(3) o have "pos = a" by (simp add: rays_scale tile_at_def)
  with w(4) k show ?thesis by (auto simp: rays_scale)
qed

lemma FoV_ring_one:
  assumes "caches_ok c" "FoV_returns c h origin radius" "distance d = 1"
  shows "\<exists>a. origin = Some a \<and> FoV_entry c h origin radius d = Some (Adjacent (h a) d) \<and>
           Adjacent (h a) d \<noteq> None"
proof -
  from assms(1,2) obtain a c' F0 F where a: "origin = Some a"
      and inv: "flood_inv (computeTable radius) h origin F0 []"
      and "FoV c h origin radius = Some (Inr F, c')" "caches_ok c'"
        "\<forall>p. F0 p \<noteq> None \<longrightarrow> F p \<noteq> None"
        "\<forall>p. F p \<noteq> F0 p \<longrightarrow> patch radius p"
      and v: "\<forall>p. F p = F0 p \<or> patched h radius F0 p (F p)"
      and en: "\<forall>p. FoV_entry c h origin radius p = F p"
    by (rule FoV_returnsE) blast
  note inv' = inv[unfolded a]
  note s = origin_successors[OF inv' ring_one_edge[OF assms(3)]]
  have o: "F0 (Offset 0 0) = Some (Some a)" using flood_inv_final(1)[OF inv'] .
  have "F d = Some (Adjacent (h a) d)"
  proof (cases "F d = F0 d")
    case True
    with s(1) show ?thesis by simp
  next
    case False
    with v have "patched h radius F0 d (F d)" by blast
    from patched_ring_one[OF this assms(3) o] show ?thesis .
  qed
  with a s(2) en show ?thesis by simp
qed

text \<open>
  C9, as the code has it.  For a radius of zero or less a returned map has exactly the
  nine keys within Chebyshev distance one: \<open>(0, 0)\<close> holds the origin tile and each of
  the eight offsets around it holds the origin's neighbour in that direction.
\<close>

theorem FoV_nonpositive_radius:
  assumes "caches_ok c" "radius \<le> 0" "FoV_returns c h origin radius"
  shows "FoV_entry c h origin radius (Offset 0 0) = Some origin \<and>
         (\<forall>p. FoV_entry c h origin radius p \<noteq> None \<longleftrightarrow> distance p \<le> 1) \<and>
         (\<exists>a. origin = Some a \<and>
            (\<forall>d. distance d = 1 \<longrightarrow> FoV_entry c h origin radius d = Some (Adjacent (h a) d)))"
proof -
  have m: "max radius 1 = 1" using assms(2) by simp
  note o = FoV_origin_entry[OF assms(1,3)]
  have b: "distance p \<le> 1" if "FoV_entry c h origin radius p \<noteq> None" for p
    using FoV_key_bound[OF assms(1,3) that] by (simp add: m)
  note ring = FoV_ring_one[OF assms(1,3)]
  from ring[of "Offset 1 0"] obtain a where a: "origin = Some a"
    by (auto simp: distance_alt)
  have k: "FoV_entry c h origin radius p \<noteq> None" if "distance p \<le> 1" for p
  proof (cases "p = Offset 0 0")
    case True
    with o show ?thesis by simp
  next
    case False
    with that distance_zero_iff[of p] distance_nonneg[of p] have "distance p = 1" by linarith
    from ring[OF this] show ?thesis by auto
  qed
  have "\<forall>d. distance d = 1 \<longrightarrow> FoV_entry c h origin radius d = Some (Adjacent (h a) d)"
    using ring a by auto
  with o b k a show ?thesis by blast
qed

theorem FoV_nonpositive_radius_witness:
  "caches_ok no_caches \<and> (0::int) \<le> 0 \<and> FoV_returns no_caches (grid 3 3 [4]) (Some 4) 0 \<and>
   FoV_entry no_caches (grid 3 3 [4]) (Some 4) 0 (Offset 0 0) = Some (Some 4) \<and>
   FoV_entry no_caches (grid 3 3 [4]) (Some 4) 0 (Offset (- 1) 1) = Some (Some 6) \<and>
   FoV_entry no_caches (grid 3 3 [4]) (Some 4) 0 (Offset 2 0) = None"
proof -
  have z: "(0::int) \<le> 0" by simp
  have r: "FoV_returns no_caches (grid 3 3 [4]) (Some 4) 0" by code_simp
  have e: "FoV_entry no_caches (grid 3 3 [4]) (Some 4) 0 (Offset (- 1) 1) = Some (Some 6)"
    by code_simp
  have c: "\<not> distance (Offset 2 0) \<le> 1" by code_simp
  from FoV_nonpositive_radius[OF caches_ok_empty z r] caches_ok_empty r e c
  show ?thesis by auto
qed

theorem FoV_nonpositive_radius_counterexample:
  "FoV_returns no_caches (grid 3 3 [4]) (Some 4) (- 1) \<and>
   FoV_entry no_caches (grid 3 3 [4]) (Some 4) (- 1) (Offset 0 0) = Some (Some 4) \<and>
   FoV_entry no_caches (grid 3 3 [4]) (Some 4) (- 1) (Offset 1 1) = Some (Some 8) \<and>
   Offset 1 1 \<noteq> Offset 0 0"
  by code_simp



section \<open>When FoV completes\<close>










section \<open>What the flood reaches\<close>

lemma reach_flood:
  assumes inv: "flood_inv (computeTable radius) h (Some a) F0 []"
  shows "reach (computeTable radius) h a d n \<Longrightarrow> F0 d = Some (Some n)"
proof (induction rule: reach.induct)
  case origin
  show ?case by (rule flood_inv_final(1)[OF inv])
next
  case (step s ts d n)
  from step.hyps(3) have e: "(s, d) \<in> edges (computeTable radius)" by (simp add: links_iff)
  from flood_inv_final(3)[OF inv step.IH step.hyps(2) e] have k: "F0 d \<noteq> None" .
  from flood_inv_final(2)[OF inv table_no_origin[OF e] k] obtain s' ts' where s':
    "(s', d) \<in> edges (computeTable radius)" "F0 s' = Some (Some ts')"
    "F0 d = Some (Adjacent (h ts') (Sub d s'))" by blast
  from table_unique_pred[OF s'(1) e] have "s' = s" .
  with s' step.IH step.hyps(4) show ?case by simp
qed

lemma flood_reach:
  assumes inv: "flood_inv (computeTable radius) h (Some a) F0 []"
  shows "F0 d \<noteq> None \<Longrightarrow> \<exists>n. F0 d = Some (Some n) \<and> reach (computeTable radius) h a d n"
proof (induction "nat (distance d)" arbitrary: d rule: less_induct)
  case less
  show ?case
  proof (cases "d = Offset 0 0")
    case True
    with flood_inv_final(1)[OF inv] reach.origin[of "computeTable radius" h a] show ?thesis by simp
  next
    case False
    from flood_inv_final(2)[OF inv False less.prems] obtain s ts where s:
      "(s, d) \<in> edges (computeTable radius)" "F0 s = Some (Some ts)"
      "s = Offset 0 0 \<or> Lite (h ts)" "Adjacent (h ts) (Sub d s) \<noteq> None"
      "F0 d = Some (Adjacent (h ts) (Sub d s))" by blast
    from table_ring(1,2)[OF s(1)] have "nat (distance s) < nat (distance d)" by simp
    from less.hyps[OF this] s(2) have r: "reach (computeTable radius) h a s ts" by auto
    from s(4) obtain n where n: "Adjacent (h ts) (Sub d s) = Some n" by auto
    from reach.step[OF r s(3) _ n] s(1) have "reach (computeTable radius) h a d n"
      by (simp add: links_iff)
    with s(5) n show ?thesis by simp
  qed
qed






section \<open>LoS and FoV\<close>

lemma grid_likeD:
  assumes "grid_like h S"
  shows "\<And>t d n. t \<in> S \<Longrightarrow> Adjacent (h t) d = Some n \<Longrightarrow> n \<in> S \<and> Offset' (h n) = shift (Offset' (h t)) d"
    and "\<And>t n d. t \<in> S \<Longrightarrow> n \<in> S \<Longrightarrow> distance d = 1 \<Longrightarrow> Offset' (h n) = shift (Offset' (h t)) d \<Longrightarrow>
        Adjacent (h t) d = Some n"
    and "\<And>t n. t \<in> S \<Longrightarrow> n \<in> S \<Longrightarrow> Offset' (h t) = Offset' (h n) \<Longrightarrow> t = n"
  using assms unfolding grid_like_def by blast+

lemma shift_diff: "shift p (diff q p) = q" "shift (shift p q) (diff r q) = shift p r"
  "shift p (Offset 0 0) = p" "diff (shift p q) p = q"
  by (cases p; cases q; cases r; simp add: shift_def diff_def)+

lemma shift_cancel: "shift p q = shift p r \<longleftrightarrow> q = r"
  by (cases p; cases q; cases r; simp add: shift_def)

lemma reach_position:
  assumes g: "grid_like h S" and a: "a \<in> S"
  shows "reach (computeTable radius) h a q n \<Longrightarrow>
         n \<in> S \<and> Offset' (h n) = shift (Offset' (h a)) q"
proof (induction rule: reach.induct)
  case origin
  with a show ?case by (simp add: shift_diff)
next
  case (step s ts d n)
  from step.hyps(3) have "Sub d s = diff d s" by (simp add: links_iff Sub_edge)
  with grid_likeD(1)[OF g, of ts "Sub d s" n] step.IH step.hyps(4)
  show ?case by (simp add: shift_diff)
qed

lemma los_loop_nil: "origin \<noteq> None \<Longrightarrow> los_loop t h origin None cur = Some (Inl NilDereference)"
  by (subst los_loop.simps) auto

lemma los_reach:
  assumes g: "grid_like h S" and a: "a \<in> S" and kr: "k \<le> radius"
  shows "n \<in> S \<Longrightarrow> Offset' (h n) = shift (Offset' (h a)) cur \<Longrightarrow> distance cur \<le> max k 1 \<Longrightarrow>
         los_loop (reverse_of (computeTable k)) h (Some a) (Some n) cur = Some (Inr True) \<Longrightarrow>
         reach (computeTable radius) h a cur n \<and> (cur = Offset 0 0 \<or> Lite (h n))"
proof (induction "nat (distance cur)" arbitrary: cur n rule: less_induct)
  case less
  note n = less.prems(1) and pos = less.prems(2) and bound = less.prems(3) and res = less.prems(4)
  let ?rt = "reverse_of (computeTable k)"
  show ?case
  proof (cases "n = a")
    case True
    with pos have "shift (Offset' (h a)) cur = shift (Offset' (h a)) (Offset 0 0)"
      by (simp add: shift_diff)
    then have "cur = Offset 0 0" by (simp only: shift_cancel)
    with True reach.origin[of "computeTable radius" h a] show ?thesis by simp
  next
    case False
    have lite: "Lite (h n)"
    proof (rule ccontr)
      assume "\<not> Lite (h n)"
      with False have "los_loop ?rt h (Some a) (Some n) cur = Some (Inr False)"
        by (subst los_loop.simps) simp
      with res show False by simp
    qed
    define nxt where "nxt = pred_of ?rt cur"
    have unfold: "los_loop ?rt h (Some a) (Some n) cur =
        los_loop ?rt h (Some a) (Adjacent (h n) (Sub nxt cur)) nxt"
      using False lite by (subst los_loop.simps) (simp add: nxt_def Let_def)
    have nz: "cur \<noteq> Offset 0 0"
    proof
      assume "cur = Offset 0 0"
      with pos have "Offset' (h n) = Offset' (h a)" by (simp add: shift_diff)
      from grid_likeD(3)[OF g n a this] False show False by simp
    qed
    then have "1 \<le> distance cur"
      using distance_zero_iff[of cur] distance_nonneg[of cur] by linarith
    with bound have key: "?rt cur \<noteq> None" by (simp only: reverse_key_iff)
    note pk = pred_of_key[OF key, folded nxt_def]
    obtain n' where n': "Adjacent (h n) (Sub nxt cur) = Some n'"
    proof (cases "Adjacent (h n) (Sub nxt cur)")
      case None
      with unfold res los_loop_nil[of "Some a" ?rt h nxt] show ?thesis by simp
    next
      case (Some n')
      then show ?thesis by (rule that)
    qed
    have e: "(nxt, cur) \<in> edges (computeTable radius)"
      using pk(4) table_mono[OF kr] by blast
    note sub = Sub_edge[OF e]
    from grid_likeD(1)[OF g n n'] pos
    have n'S: "n' \<in> S" and n'pos: "Offset' (h n') = shift (Offset' (h a)) nxt"
      by (simp_all add: shift_diff sub)
    have "nat (distance nxt) < nat (distance cur)"
      using pk(1,2) by simp
    moreover have "distance nxt \<le> max k 1" using pk(1) bound by simp
    moreover have "los_loop ?rt h (Some a) (Some n') nxt = Some (Inr True)"
      using res unfold n' by simp
    ultimately have IH: "reach (computeTable radius) h a nxt n'" "nxt = Offset 0 0 \<or> Lite (h n')"
      using less.hyps[of nxt n'] n'S n'pos by blast+
    have "Offset' (h n) = shift (Offset' (h n')) (Sub cur nxt)"
      using pos n'pos by (simp add: shift_diff sub)
    from grid_likeD(2)[OF g n'S n table_unit_step[OF e] this]
    have rev_link: "Adjacent (h n') (Sub cur nxt) = Some n" .
    have "links (computeTable radius) nxt cur" using e by (simp add: links_iff)
    from reach.step[OF IH(1) IH(2) this rev_link] lite show ?thesis by simp
  qed
qed

lemma ray_positions:
  "shift (shift p (scale dir (k - 1))) (shift dir perp) = shift p (shift (scale dir k) perp)"
  "shift (shift p (scale dir (k - 1))) (diff dir perp) = shift p (diff (scale dir k) perp)"
  by (cases p; cases dir; cases perp; simp add: shift_def diff_def scale_def algebra_simps)+

lemma rays_diagonal:
  assumes "(dir, perp) \<in> rays"
  shows "distance (shift dir perp) = 1" "distance (diff dir perp) = 1"
  using rays_distance[OF assms order_refl] by (simp_all add: rays_scale)

lemma patched_grid:
  assumes g: "grid_like h S" and a: "a \<in> S"
    and inv: "flood_inv (computeTable radius) h (Some a) F0 []"
    and b: "b \<in> S" "Offset' (h b) = shift (Offset' (h a)) p"
    and pt: "patched h radius F0 p v"
  shows "v = Some (Some b)"
proof -
  from pt obtain dir perp k pos where w: "(dir, perp) \<in> rays"
    "tile_at F0 (scale dir (k - 1)) = Some pos"
    "(p = shift (scale dir k) perp \<and> v = Some (Adjacent (h pos) (shift dir perp))) \<or>
     (p = diff (scale dir k) perp \<and> v = Some (Adjacent (h pos) (diff dir perp)))"
    unfolding patched_def by blast
  from w(2) have q: "F0 (scale dir (k - 1)) = Some (Some pos)"
    by (auto simp: tile_at_def split: option.splits)
  then have "F0 (scale dir (k - 1)) \<noteq> None" by simp
  from flood_reach[OF inv this] q have "reach (computeTable radius) h a (scale dir (k - 1)) pos"
    by simp
  from reach_position[OF g a this]
  have pos: "pos \<in> S" "Offset' (h pos) = shift (Offset' (h a)) (scale dir (k - 1))" by simp_all
  from w(3) show ?thesis
  proof
    assume c: "p = shift (scale dir k) perp \<and> v = Some (Adjacent (h pos) (shift dir perp))"
    with b(2) pos(2) have "Offset' (h b) = shift (Offset' (h pos)) (shift dir perp)"
      by (simp add: ray_positions)
    from grid_likeD(2)[OF g pos(1) b(1) rays_diagonal(1)[OF w(1)] this] c show ?thesis by simp
  next
    assume c: "p = diff (scale dir k) perp \<and> v = Some (Adjacent (h pos) (diff dir perp))"
    with b(2) pos(2) have "Offset' (h b) = shift (Offset' (h pos)) (diff dir perp)"
      by (simp add: ray_positions)
    from grid_likeD(2)[OF g pos(1) b(1) rays_diagonal(2)[OF w(1)] this] c show ?thesis by simp
  qed
qed

lemma LoS_trueD:
  assumes "caches_ok c" "LoS_true c h (Some a) (Some b)"
  shows "los_loop (reverse_of (computeTable (Chebyshev (Sub (Offset' (h b)) (Offset' (h a))))))
           h (Some a) (Some b) (Sub (Offset' (h b)) (Offset' (h a))) = Some (Inr True)"
proof -
  let ?cur = "Sub (Offset' (h b)) (Offset' (h a))"
  obtain t c' where gt: "getReverseTable c ?cur = (t, c')" by force
  from getReverseTable_ok(1)[OF assms(1) gt]
  have t: "t = reverse_of (computeTable (Chebyshev ?cur))" .
  from assms(2) show ?thesis
    unfolding LoS_true_def LoS_def
    by (auto simp: gt t Let_def split: option.splits sum.splits)
qed

text \<open>
  C3, as the code has it.  On a grid of tiles, if \<^verbatim>\<open>LoS(a, b)\<close> returns true, the
  Chebyshev distance of the offset of \<open>b\<close> from \<open>a\<close> is at most the radius, which
  is an \<^verbatim>\<open>int\<close> of Go and so at most \<open>MaxInt64\<close>, and \<^verbatim>\<open>FoV(a, radius)\<close> returns a map,
  then the map holds \<open>b\<close> at that offset.
\<close>

theorem LoS_implies_FoV_entry:
  assumes "caches_ok c" "caches_ok c2" "grid_like h S" "a \<in> S" "b \<in> S"
    and "LoS_true c h (Some a) (Some b)"
    and "distance (diff (Offset' (h b)) (Offset' (h a))) \<le> radius"
    and "radius \<le> MaxInt64"
    and "FoV_returns c2 h (Some a) radius"
  shows "FoV_entry c2 h (Some a) radius (diff (Offset' (h b)) (Offset' (h a))) = Some (Some b)"
proof -
  let ?cur = "diff (Offset' (h b)) (Offset' (h a))"
  from assms(7,8) have small: "distance ?cur < 9223372036854775808" by (simp add: MaxInt64_def)
  note sub = Sub_diff[OF small] and ch = Chebyshev_distance[OF small]
  have pos: "Offset' (h b) = shift (Offset' (h a)) ?cur" by (simp add: shift_diff)
  have "reach (computeTable radius) h a ?cur b"
    using los_reach[OF assms(3,4,7) assms(5) pos _ LoS_trueD[OF assms(1,6), unfolded sub ch]]
    by simp
  note r = this
  from assms(2,9) obtain a' c' F0 F where "Some a = Some a'"
      and inv: "flood_inv (computeTable radius) h (Some a) F0 []"
      and "FoV c2 h (Some a) radius = Some (Inr F, c')" "caches_ok c'"
        "\<forall>p. F0 p \<noteq> None \<longrightarrow> F p \<noteq> None" "\<forall>p. F p \<noteq> F0 p \<longrightarrow> patch radius p"
      and v: "\<forall>p. F p = F0 p \<or> patched h radius F0 p (F p)"
      and en: "\<forall>p. FoV_entry c2 h (Some a) radius p = F p"
    by (rule FoV_returnsE) blast
  have "F ?cur = Some (Some b)"
  proof (cases "F ?cur = F0 ?cur")
    case True
    with reach_flood[OF inv r] show ?thesis by simp
  next
    case False
    with v have "patched h radius F0 ?cur (F ?cur)" by blast
    from patched_grid[OF assms(3,4) inv assms(5) pos this] show ?thesis .
  qed
  with en show ?thesis by simp
qed

lemma grid_like_grid:
  assumes "0 < w"
  shows "grid_like (grid w hh lits) {..<w * hh}"
  unfolding grid_like_def
proof (intro conjI ballI allI impI)
  fix t d n assume t: "t \<in> {..<w * hh}" and ad: "Adjacent (grid w hh lits t) d = Some n"
  define x where "x = int (t mod w) + X d"
  define y where "y = int (t div w) + Y d"
  from ad have c: "0 \<le> x" "x < int w" "0 \<le> y" "y < int hh" and n: "n = nat y * w + nat x"
    by (auto simp: grid_def Let_def x_def y_def split: if_splits)
  have xw: "nat x < w" using c by simp
  have "nat y < hh" using c by simp
  then have "Suc (nat y) * w \<le> hh * w" by (intro mult_le_mono1) simp
  with xw have "nat y * w + nat x < hh * w" by simp
  then show "n \<in> {..<w * hh}" by (simp add: n mult.commute)
  have "n mod w = nat x" "n div w = nat y" using xw by (simp_all add: n)
  with c show "Offset' (grid w hh lits n) = shift (Offset' (grid w hh lits t)) d"
    by (simp add: grid_def shift_def x_def y_def)
next
  fix t n d assume t: "t \<in> {..<w * hh}" and n: "n \<in> {..<w * hh}" and d: "distance d = 1"
    and o: "Offset' (grid w hh lits n) = shift (Offset' (grid w hh lits t)) d"
  from o have x: "int (n mod w) = int (t mod w) + X d" and y: "int (n div w) = int (t div w) + Y d"
    by (simp_all add: grid_def shift_def)
  have "n mod w < w" using assms by simp
  moreover have "n div w < hh" using n assms by (simp add: less_mult_imp_div_less mult.commute)
  moreover have "n div w * w + n mod w = n" by simp
  ultimately show "Adjacent (grid w hh lits t) d = Some n"
    using t d by (simp add: grid_def Let_def x[symmetric] y[symmetric])
next
  fix t n assume "Offset' (grid w hh lits t) = Offset' (grid w hh lits n)"
  then have "t mod w = n mod w" "t div w = n div w" by (simp_all add: grid_def)
  then show "t = n" by (metis div_mult_mod_eq)
qed

theorem LoS_implies_FoV_entry_witness:
  "caches_ok no_caches \<and> grid_like (grid 3 3 [4, 5]) {..<3 * 3} \<and> 4 \<in> {..<3 * (3::nat)} \<and>
   5 \<in> {..<3 * (3::nat)} \<and> LoS_true no_caches (grid 3 3 [4, 5]) (Some 4) (Some 5) \<and>
   distance (diff (Offset' (grid 3 3 [4, 5] 5)) (Offset' (grid 3 3 [4, 5] 4))) \<le> 1 \<and>
   1 \<le> MaxInt64 \<and> FoV_returns no_caches (grid 3 3 [4, 5]) (Some 4) 1 \<and>
   FoV_entry no_caches (grid 3 3 [4, 5]) (Some 4) 1 (Offset 1 0) = Some (Some 5)"
proof -
  have g: "grid_like (grid 3 3 [4, 5]) {..<3 * 3}" by (rule grid_like_grid) simp
  have m: "4 \<in> {..<3 * (3::nat)}" "5 \<in> {..<3 * (3::nat)}" by simp_all
  have l: "LoS_true no_caches (grid 3 3 [4, 5]) (Some 4) (Some 5)" by code_simp
  have d: "distance (diff (Offset' (grid 3 3 [4, 5] 5)) (Offset' (grid 3 3 [4, 5] 4))) \<le> 1"
    by code_simp
  have i: "1 \<le> MaxInt64" by (simp add: MaxInt64_def)
  have r: "FoV_returns no_caches (grid 3 3 [4, 5]) (Some 4) 1" by code_simp
  have o: "diff (Offset' (grid 3 3 [4, 5] 5)) (Offset' (grid 3 3 [4, 5] 4)) = Offset 1 0"
    by code_simp
  from LoS_implies_FoV_entry[OF caches_ok_empty caches_ok_empty g m l d i r]
  have "FoV_entry no_caches (grid 3 3 [4, 5]) (Some 4) 1 (Offset 1 0) = Some (Some 5)"
    by (simp only: o)
  with caches_ok_empty g m l d i r show ?thesis by blast
qed

theorem LoS_without_FoV_entry_counterexample:
  "LoS_true no_caches (grid 2 1 [0, 1]) (Some 0) (Some 1) \<and>
   distance (diff (Offset' (grid 2 1 [0, 1] 1)) (Offset' (grid 2 1 [0, 1] 0))) \<le> 1 \<and>
   FoV_fails no_caches (grid 2 1 [0, 1]) (Some 0) 1 \<and>
   LoS_true no_caches one_way (Some 0) (Some 1) \<and>
   distance (diff (Offset' (one_way 1)) (Offset' (one_way 0))) \<le> 1 \<and>
   FoV_entry no_caches one_way (Some 0) 1 (diff (Offset' (one_way 1)) (Offset' (one_way 0))) =
     Some (Some 2)"
  by code_simp

end
